theory Spec2Isabelle
  imports Main "HOL-Library.Word" "HOL-Library.Sublist"
begin

unbundle bit_operations_syntax

section \<open>Patterns, errors and the Unicode tables\<close>

text \<open>
  A pattern is a Python \<open>str\<close> (a sequence of code points) or a \<open>bytes\<close> value (a
  sequence of bytes). The scanner below works on the units of either as natural numbers;
  the alphabet is carried by the flag \<open>is_bytes\<close>, as in \<open>norm_pattern\<close>.
\<close>

datatype pattern = Str "nat list" | Bytes "8 word list"

fun units :: "pattern \<Rightarrow> nat list" where
  "units (Str s) = s"
| "units (Bytes b) = map unat b"

fun isinstance_bytes :: "pattern \<Rightarrow> bool" where
  "isinstance_bytes (Str s) = False"
| "isinstance_bytes (Bytes b) = True"

definition to_pattern :: "bool \<Rightarrow> nat list \<Rightarrow> pattern" where
  "to_pattern is_bytes s = (if is_bytes then Bytes (map of_nat s) else Str s)"

text \<open>
  The exceptions \<open>norm_pattern\<close> can leave with: the \<open>SyntaxError\<close> it raises itself
  (with the value and the position it formats into the message), the \<open>KeyError\<close> of a
  failed dictionary or name lookup, and the \<open>ValueError\<close> of \<open>chr\<close>, \<open>bytes\<close> and
  \<open>int\<close>.
\<close>

datatype error = SyntaxError pattern nat | KeyError "nat list" | ValueError

text \<open>
  The two tables of the Unicode character database the code reaches through \<open>re\<close>,
  \<open>int\<close> and \<open>unicodedata.lookup\<close>: the decimal digit value of a code point beyond
  ASCII (general category Nd), and the character of a name.
\<close>

record unicodedata =
  decimal :: "nat \<Rightarrow> nat option"
  lookup :: "nat list \<Rightarrow> nat list option"

definition ascii_db :: unicodedata where
  "ascii_db = \<lparr>decimal = Map.empty, lookup = Map.empty\<rparr>"

section \<open>Character classes of the two regular expressions\<close>

definition is_octal :: "nat \<Rightarrow> bool" where
  "is_octal c = (48 \<le> c \<and> c \<le> 55)"

definition octal_value :: "nat \<Rightarrow> nat option" where
  "octal_value c = (if is_octal c then Some (c - 48) else None)"

text \<open>
  \<open>\d\<close>: the ASCII digits in a bytes pattern; every Unicode decimal digit in a str
  pattern. \<open>int\<close> reads each of them as its digit value, which lies between 0 and 9.
\<close>

definition digit_value :: "unicodedata \<Rightarrow> bool \<Rightarrow> nat \<Rightarrow> nat option" where
  "digit_value db is_bytes c =
     (if 48 \<le> c \<and> c \<le> 57 then Some (c - 48)
      else if is_bytes \<or> c < 128 then None
      else map_option (\<lambda>v. v mod 10) (decimal db c))"

text \<open>\<open>[\da-fA-F]\<close>\<close>

definition hex_value :: "unicodedata \<Rightarrow> bool \<Rightarrow> nat \<Rightarrow> nat option" where
  "hex_value db is_bytes c =
     (if 97 \<le> c \<and> c \<le> 102 then Some (c - 87)
      else if 65 \<le> c \<and> c \<le> 70 then Some (c - 55)
      else digit_value db is_bytes c)"

definition is_hex :: "unicodedata \<Rightarrow> bool \<Rightarrow> nat \<Rightarrow> bool" where
  "is_hex db is_bytes c = (hex_value db is_bytes c \<noteq> None)"

text \<open>\<open>[\da-fA-F]{k}\<close> at the head of \<open>s\<close>\<close>

definition hexn :: "unicodedata \<Rightarrow> bool \<Rightarrow> nat \<Rightarrow> nat list \<Rightarrow> bool" where
  "hexn db is_bytes k s = (k \<le> length s \<and> list_all (is_hex db is_bytes) (take k s))"

text \<open>\<open>[abfnrtv\\]\<close>\<close>

definition is_standard :: "nat \<Rightarrow> bool" where
  "is_standard c = (c \<in> set [97, 98, 102, 110, 114, 116, 118, 92])"

text \<open>\<open>[NUux]\<close>\<close>

definition is_prefix_char :: "nat \<Rightarrow> bool" where
  "is_prefix_char c = (c \<in> set [78, 85, 117, 120])"

section \<open>Match objects\<close>

text \<open>
  What \<open>norm\<close> reads of a match object: \<open>m.group(0)\<close>, the numbered groups (\<open>None\<close>
  for a group that took no part in the match) and the start of the match, which is also
  \<open>m.start(6)\<close> and \<open>m.start(7)\<close>, since those groups span the whole match.
\<close>

record rmatch =
  start :: nat
  group0 :: "nat list"
  groups :: "nat \<rightharpoonup> nat list"

definition group :: "rmatch \<Rightarrow> nat \<Rightarrow> nat list option" where
  "group m i = (if i = 0 then Some (group0 m) else groups m i)"

text \<open>Python's truth value of \<open>m.group(i)\<close>: \<open>None\<close> and the empty string are false.\<close>

definition truthy :: "nat list option \<Rightarrow> bool" where
  "truthy g = (case g of None \<Rightarrow> False | Some v \<Rightarrow> v \<noteq> [])"

definition text_of :: "nat list option \<Rightarrow> nat list" where
  "text_of g = (case g of None \<Rightarrow> [] | Some v \<Rightarrow> v)"

section \<open>RE_NORM and RE_BNORM, matched at the head of a string\<close>

text \<open>
  Both expressions are ordered alternations of groups, none of which matches the empty
  string; the first alternative that matches wins. Each alternative is a function from
  the rest of the subject to the text it matches there.

  \<^verbatim>\<open>(/|\\/)\<close>
\<close>

definition slash_alt :: "nat list \<Rightarrow> nat list option" where
  "slash_alt s =
     (if take 1 s = [47] then Some [47]
      else if take 2 s = [92, 47] then Some [92, 47]
      else None)"

text \<open>\<^verbatim>\<open>(\\[abfnrtv\\])\<close>\<close>

definition standard_alt :: "nat list \<Rightarrow> nat list option" where
  "standard_alt s =
     (case s of
        c # d # r \<Rightarrow> if c = 92 \<and> is_standard d then Some [92, d] else None
      | _ \<Rightarrow> None)"

text \<open>
  \<^verbatim>\<open>(\\(?:U[\da-fA-F]{8}|u[\da-fA-F]{4}|x[\da-fA-F]{2}|([0-7]{1,3})))\<close> in \<open>RE_NORM\<close>,
  \<^verbatim>\<open>(\\(?:x[\da-fA-F]{2}|([0-7]{1,3})))\<close> in \<open>RE_BNORM\<close>. The result is the text of
  the outer group and, when the octal branch matched, the text of the inner group, which
  takes as many octal digits as there are, up to three.
\<close>

definition numeric_alt ::
  "unicodedata \<Rightarrow> bool \<Rightarrow> nat list \<Rightarrow> (nat list \<times> nat list option) option" where
  "numeric_alt db is_bytes s =
     (case s of
        c # d # r \<Rightarrow>
          if c \<noteq> 92 then None
          else if \<not> is_bytes \<and> d = 85 \<and> hexn db is_bytes 8 r then Some (92 # 85 # take 8 r, None)
          else if \<not> is_bytes \<and> d = 117 \<and> hexn db is_bytes 4 r then Some (92 # 117 # take 4 r, None)
          else if d = 120 \<and> hexn db is_bytes 2 r then Some (92 # 120 # take 2 r, None)
          else if is_octal d
            then Some (92 # takeWhile is_octal (take 3 (d # r)),
                       Some (takeWhile is_octal (take 3 (d # r))))
          else None
      | _ \<Rightarrow> None)"

text \<open>\<^verbatim>\<open>(\\N\{[^}]*?\})\<close>: the name runs to the first closing brace.\<close>

definition named_alt :: "nat list \<Rightarrow> nat list option" where
  "named_alt s =
     (if take 3 s = [92, 78, 123] \<and> 125 \<in> set (drop 3 s)
      then Some ([92, 78, 123] @ takeWhile (\<lambda>x. x \<noteq> 125) (drop 3 s) @ [125])
      else None)"

text \<open>
  \<^verbatim>\<open>(\\[^NUux])\<close> and \<^verbatim>\<open>(\\[NUux])\<close> in \<open>RE_NORM\<close>, \<^verbatim>\<open>(\\[^x])\<close> and \<^verbatim>\<open>(\\[x])\<close>
  in \<open>RE_BNORM\<close>: a backslash and one unit outside, or inside, the class \<open>cls\<close>.
\<close>

definition other_alt :: "(nat \<Rightarrow> bool) \<Rightarrow> nat list \<Rightarrow> nat list option" where
  "other_alt cls s =
     (case s of
        c # d # r \<Rightarrow> if c = 92 \<and> \<not> cls d then Some [92, d] else None
      | _ \<Rightarrow> None)"

definition prefix_alt :: "(nat \<Rightarrow> bool) \<Rightarrow> nat list \<Rightarrow> nat list option" where
  "prefix_alt cls s =
     (case s of
        c # d # r \<Rightarrow> if c = 92 \<and> cls d then Some [92, d] else None
      | _ \<Rightarrow> None)"

definition RE_NORM :: "unicodedata \<Rightarrow> nat \<Rightarrow> nat list \<Rightarrow> rmatch option" where
  "RE_NORM db pos s =
     (case slash_alt s of
        Some g \<Rightarrow> Some \<lparr>start = pos, group0 = g, groups = [1 \<mapsto> g]\<rparr>
      | None \<Rightarrow>
     (case standard_alt s of
        Some g \<Rightarrow> Some \<lparr>start = pos, group0 = g, groups = [2 \<mapsto> g]\<rparr>
      | None \<Rightarrow>
     (case numeric_alt db False s of
        Some (g, None) \<Rightarrow> Some \<lparr>start = pos, group0 = g, groups = [3 \<mapsto> g]\<rparr>
      | Some (g, Some oct) \<Rightarrow> Some \<lparr>start = pos, group0 = g, groups = [3 \<mapsto> g, 4 \<mapsto> oct]\<rparr>
      | None \<Rightarrow>
     (case named_alt s of
        Some g \<Rightarrow> Some \<lparr>start = pos, group0 = g, groups = [5 \<mapsto> g]\<rparr>
      | None \<Rightarrow>
     (case other_alt is_prefix_char s of
        Some g \<Rightarrow> Some \<lparr>start = pos, group0 = g, groups = [6 \<mapsto> g]\<rparr>
      | None \<Rightarrow>
     (case prefix_alt is_prefix_char s of
        Some g \<Rightarrow> Some \<lparr>start = pos, group0 = g, groups = [7 \<mapsto> g]\<rparr>
      | None \<Rightarrow> None))))))"

definition RE_BNORM :: "unicodedata \<Rightarrow> nat \<Rightarrow> nat list \<Rightarrow> rmatch option" where
  "RE_BNORM db pos s =
     (case slash_alt s of
        Some g \<Rightarrow> Some \<lparr>start = pos, group0 = g, groups = [1 \<mapsto> g]\<rparr>
      | None \<Rightarrow>
     (case standard_alt s of
        Some g \<Rightarrow> Some \<lparr>start = pos, group0 = g, groups = [2 \<mapsto> g]\<rparr>
      | None \<Rightarrow>
     (case numeric_alt db True s of
        Some (g, None) \<Rightarrow> Some \<lparr>start = pos, group0 = g, groups = [3 \<mapsto> g]\<rparr>
      | Some (g, Some oct) \<Rightarrow> Some \<lparr>start = pos, group0 = g, groups = [3 \<mapsto> g, 4 \<mapsto> oct]\<rparr>
      | None \<Rightarrow>
     (case other_alt (\<lambda>d. d = 120) s of
        Some g \<Rightarrow> Some \<lparr>start = pos, group0 = g, groups = [5 \<mapsto> g]\<rparr>
      | None \<Rightarrow>
     (case prefix_alt (\<lambda>d. d = 120) s of
        Some g \<Rightarrow> Some \<lparr>start = pos, group0 = g, groups = [6 \<mapsto> g]\<rparr>
      | None \<Rightarrow> None)))))"

text \<open>\<open>pat\<close>: \<open>RE_BNORM\<close> for a bytes pattern, \<open>RE_NORM\<close> otherwise.\<close>

definition pat :: "unicodedata \<Rightarrow> bool \<Rightarrow> nat \<Rightarrow> nat list \<Rightarrow> rmatch option" where
  "pat db is_bytes pos s = (if is_bytes then RE_BNORM db pos s else RE_NORM db pos s)"

section \<open>The replacement function\<close>

definition BACK_SLASH_TRANSLATION :: "(nat list \<times> nat list) list" where
  "BACK_SLASH_TRANSLATION =
     [([92, 97], [7]), ([92, 98], [8]), ([92, 102], [12]), ([92, 114], [13]),
      ([92, 116], [9]), ([92, 110], [10]), ([92, 118], [11]), ([92, 92], [92, 92])]"

text \<open>\<open>int(s, base)\<close> on a string of digits; a unit that is no digit raises.\<close>

fun py_int :: "(nat \<Rightarrow> nat option) \<Rightarrow> nat \<Rightarrow> nat \<Rightarrow> nat list \<Rightarrow> error + nat" where
  "py_int val base acc [] = Inr acc"
| "py_int val base acc (c # cs) =
     (case val c of None \<Rightarrow> Inl ValueError | Some v \<Rightarrow> py_int val base (acc * base + v) cs)"

text \<open>\<open>chr(i)\<close> and \<open>bytes([i])\<close>, with their ranges.\<close>

definition chr :: "nat \<Rightarrow> error + nat list" where
  "chr i = (if i < 1114112 then Inr [i] else Inl ValueError)"

definition bytes1 :: "nat \<Rightarrow> error + nat list" where
  "bytes1 i = (if i < 256 then Inr [i] else Inl ValueError)"

definition norm :: "unicodedata \<Rightarrow> bool \<Rightarrow> bool \<Rightarrow> bool \<Rightarrow> bool \<Rightarrow> rmatch \<Rightarrow> error + nat list" where
  "norm db is_bytes normalize' is_raw_chars ignore_escape m =
     (let slash = [92]; multi_slash = concat (replicate 4 slash) in
      if truthy (group m 1) then
        Inr (if normalize' \<and> length (text_of (group m 1)) > 1 then multi_slash
             else text_of (group m 1))
      else if truthy (group m 2) then
        (if is_raw_chars then
           (case map_of BACK_SLASH_TRANSLATION (text_of (group m 2)) of
              None \<Rightarrow> Inl (KeyError (text_of (group m 2)))
            | Some v \<Rightarrow> Inr v)
         else Inr (text_of (group m 2)))
      else if is_raw_chars \<and> truthy (group m 4) then
        (case py_int octal_value 8 0 (text_of (group m 4)) of
           Inl e \<Rightarrow> Inl e
         | Inr v \<Rightarrow> if is_bytes then bytes1 (v AND 255) else chr v)
      else if is_raw_chars \<and> truthy (group m 3) then
        (case py_int (hex_value db is_bytes) 16 0 (drop 2 (text_of (group m 3))) of
           Inl e \<Rightarrow> Inl e
         | Inr v \<Rightarrow> if is_bytes then bytes1 v else chr v)
      else if is_raw_chars \<and> \<not> is_bytes \<and> truthy (group m 5) then
        (case lookup db (butlast (drop 3 (text_of (group m 5)))) of
           None \<Rightarrow> Inl (KeyError (butlast (drop 3 (text_of (group m 5)))))
         | Some v \<Rightarrow> Inr v)
      else if \<not> is_raw_chars \<or> truthy (group m (if is_bytes then 5 else 6)) then
        Inr (if ignore_escape then slash @ group0 m else group0 m)
      else
        Inl (SyntaxError
               (to_pattern is_bytes (text_of (group m (if is_bytes then 6 else 7))))
               (start m)))"

section \<open>re.sub and norm_pattern\<close>

lemma take_eq_ConsD: "take (Suc n) s = c # g \<Longrightarrow> \<exists>t. s = c # t \<and> take n t = g"
  by (cases s) auto

lemma slash_alt_prefix:
  assumes "slash_alt s = Some g"
  shows "g \<noteq> [] \<and> take (length g) s = g"
proof (cases s)
  case Nil
  then show ?thesis using assms by (simp add: slash_alt_def)
next
  case (Cons c t)
  then show ?thesis using assms by (cases t) (auto simp: slash_alt_def split: if_splits)
qed

lemma standard_alt_prefix: "standard_alt s = Some g \<Longrightarrow> g \<noteq> [] \<and> take (length g) s = g"
  by (auto simp: standard_alt_def split: list.splits if_splits)

lemma other_alt_prefix: "other_alt cls s = Some g \<Longrightarrow> g \<noteq> [] \<and> take (length g) s = g"
  by (auto simp: other_alt_def split: list.splits if_splits)

lemma prefix_alt_prefix: "prefix_alt cls s = Some g \<Longrightarrow> g \<noteq> [] \<and> take (length g) s = g"
  by (auto simp: prefix_alt_def split: list.splits if_splits)

lemma take_takeWhile_Cons:
  "x \<in> set xs \<Longrightarrow> take (Suc (length (takeWhile (\<lambda>y. y \<noteq> x) xs))) xs = takeWhile (\<lambda>y. y \<noteq> x) xs @ [x]"
  by (induction xs) auto

lemma take_length_takeWhile: "take (length (takeWhile P xs)) xs = takeWhile P xs"
  by (induction xs) auto

lemma named_alt_prefix: "named_alt s = Some g \<Longrightarrow> g \<noteq> [] \<and> take (length g) s = g"
proof -
  assume a: "named_alt s = Some g"
  then have t: "take 3 s = [92, 78, 123]" and m: "125 \<in> set (drop 3 s)"
    and g: "g = [92, 78, 123] @ takeWhile (\<lambda>x. x \<noteq> 125) (drop 3 s) @ [125]"
    by (auto simp: named_alt_def split: if_splits)
  from t obtain r where s: "s = 92 # 78 # 123 # r"
    by (auto simp: numeral_3_eq_3 dest!: take_eq_ConsD)
  then show ?thesis using take_takeWhile_Cons[of 125 r] m g by simp
qed

lemma take_takeWhile_take: "take (length (takeWhile P (take k xs))) xs = takeWhile P (take k xs)"
proof -
  have "length (takeWhile P (take k xs)) \<le> k"
    by (rule order_trans[OF length_takeWhile_le]) simp
  then have "take (length (takeWhile P (take k xs))) xs
      = take (length (takeWhile P (take k xs))) (take k xs)"
    by (simp add: min_def)
  then show ?thesis by (simp only: take_length_takeWhile)
qed

lemma numeric_alt_cases:
  assumes "numeric_alt db b s = Some (g, oct)"
  obtains d r k where "s = 92 # d # r" "k \<le> length r" "g = 92 # d # take k r" "oct = None"
  | d r where "s = 92 # d # r" "is_octal d" "g = 92 # takeWhile is_octal (take 3 (d # r))"
      "oct = Some (takeWhile is_octal (take 3 (d # r)))"
proof (cases s)
  case Nil
  then show ?thesis using assms by (simp add: numeric_alt_def)
next
  case (Cons c t)
  show ?thesis
  proof (cases t)
    case Nil
    then show ?thesis using assms Cons by (simp add: numeric_alt_def)
  next
    case (Cons d r)
    with \<open>s = c # t\<close> assms that show ?thesis
      by (simp add: numeric_alt_def hexn_def split: if_splits)
  qed
qed

lemma numeric_alt_prefix:
  assumes "numeric_alt db b s = Some (g, oct)"
  shows "g \<noteq> [] \<and> take (length g) s = g"
  using assms
proof (cases rule: numeric_alt_cases)
  case (1 d r k)
  then show ?thesis by (simp add: min_def)
next
  case (2 d r)
  then show ?thesis using take_takeWhile_take[of is_octal 3 "d # r"] by simp
qed

lemma RE_NORM_group0:
  "RE_NORM db pos s = Some m \<Longrightarrow>
     slash_alt s = Some (group0 m) \<or> standard_alt s = Some (group0 m) \<or>
     (\<exists>oct. numeric_alt db False s = Some (group0 m, oct)) \<or> named_alt s = Some (group0 m) \<or>
     other_alt is_prefix_char s = Some (group0 m) \<or> prefix_alt is_prefix_char s = Some (group0 m)"
  by (auto simp: RE_NORM_def split: option.splits prod.splits)

lemma RE_BNORM_group0:
  "RE_BNORM db pos s = Some m \<Longrightarrow>
     slash_alt s = Some (group0 m) \<or> standard_alt s = Some (group0 m) \<or>
     (\<exists>oct. numeric_alt db True s = Some (group0 m, oct)) \<or>
     other_alt (\<lambda>d. d = 120) s = Some (group0 m) \<or> prefix_alt (\<lambda>d. d = 120) s = Some (group0 m)"
  by (auto simp: RE_BNORM_def split: option.splits prod.splits)

lemma pat_prefix:
  assumes "pat db is_bytes pos s = Some m"
  shows "group0 m \<noteq> [] \<and> take (length (group0 m)) s = group0 m"
proof (cases is_bytes)
  case True
  then have "RE_BNORM db pos s = Some m" using assms by (simp add: pat_def)
  from RE_BNORM_group0[OF this] show ?thesis
    using slash_alt_prefix standard_alt_prefix other_alt_prefix prefix_alt_prefix
      numeric_alt_prefix by blast
next
  case False
  then have "RE_NORM db pos s = Some m" using assms by (simp add: pat_def)
  from RE_NORM_group0[OF this] show ?thesis
    using slash_alt_prefix standard_alt_prefix other_alt_prefix prefix_alt_prefix
      named_alt_prefix numeric_alt_prefix by blast
qed

lemma pat_length:
  assumes "pat db is_bytes pos s = Some m"
  shows "0 < length (group0 m) \<and> length (group0 m) \<le> length s"
proof -
  from pat_prefix[OF assms] have ne: "group0 m \<noteq> []"
    and tk: "take (length (group0 m)) s = group0 m" by simp_all
  have "length (take (length (group0 m)) s) = length (group0 m)" by (simp only: tk)
  then have "length (group0 m) \<le> length s" by simp
  with ne show ?thesis by simp
qed

text \<open>
  \<open>pat.sub(norm, pattern)\<close>: the subject is scanned from the left; where the expression
  matches, the replacement of the match is emitted and the scan goes on behind the match;
  elsewhere one unit is copied. An exception of the replacement function ends the call.
  \<open>emit char rest\<close> puts \<open>char\<close> in front of what the rest of the scan produces.
\<close>

definition emit :: "nat list \<Rightarrow> error + nat list \<Rightarrow> error + nat list" where
  "emit char rest = (case rest of Inl e \<Rightarrow> Inl e | Inr out \<Rightarrow> Inr (char @ out))"

function sub :: "unicodedata \<Rightarrow> bool \<Rightarrow> (rmatch \<Rightarrow> error + nat list) \<Rightarrow> nat \<Rightarrow> nat list \<Rightarrow> error + nat list" where
  "sub db is_bytes repl pos s =
     (case s of
        [] \<Rightarrow> Inr []
      | c # t \<Rightarrow>
          (case pat db is_bytes pos s of
             None \<Rightarrow> emit [c] (sub db is_bytes repl (Suc pos) t)
           | Some m \<Rightarrow>
               (case repl m of
                  Inl e \<Rightarrow> Inl e
                | Inr char \<Rightarrow>
                    emit char
                      (sub db is_bytes repl (pos + length (group0 m)) (drop (length (group0 m)) s)))))"
  by pat_completeness auto
termination
  by (relation "measure (\<lambda>(db, is_bytes, repl, pos, s). length s)")
     (auto dest: pat_length)

declare sub.simps [simp del]

text \<open>
  \<open>norm_pattern\<close> returns either the object it was handed (\<open>return pattern\<close>) or the
  object \<open>pat.sub\<close> returned; and it calls \<open>pat.sub\<close> or it does not. \<open>norm_pattern_run\<close>
  is the function with both: what it returns, and the calls of \<open>pat.sub\<close> it made, each
  with the expression (\<open>RE_BNORM\<close> when the flag is set) and the subject.
\<close>

datatype returned = Argument | Sub_result pattern

datatype libcall = Pat_sub bool "nat list"

definition norm_pattern_run ::
  "unicodedata \<Rightarrow> pattern \<Rightarrow> bool \<Rightarrow> bool \<Rightarrow> bool \<Rightarrow> (error + returned) \<times> libcall list" where
  "norm_pattern_run db pattern normalize' is_raw_chars ignore_escape =
     (let is_bytes = isinstance_bytes pattern in
      if \<not> normalize' \<and> \<not> is_raw_chars \<and> \<not> ignore_escape then (Inr Argument, [])
      else
        ((case sub db is_bytes (norm db is_bytes normalize' is_raw_chars ignore_escape) 0
                 (units pattern) of
            Inl e \<Rightarrow> Inl e
          | Inr out \<Rightarrow> Inr (Sub_result (to_pattern is_bytes out))),
         [Pat_sub is_bytes (units pattern)]))"

text \<open>The value of what was returned, for the pattern handed in.\<close>

fun value_of :: "pattern \<Rightarrow> returned \<Rightarrow> pattern" where
  "value_of pattern Argument = pattern"
| "value_of pattern (Sub_result q) = q"

definition norm_pattern ::
  "unicodedata \<Rightarrow> pattern \<Rightarrow> bool \<Rightarrow> bool \<Rightarrow> bool \<Rightarrow> error + pattern" where
  "norm_pattern db pattern normalize' is_raw_chars ignore_escape =
     (case fst (norm_pattern_run db pattern normalize' is_raw_chars ignore_escape) of
        Inl e \<Rightarrow> Inl e
      | Inr ret \<Rightarrow> Inr (value_of pattern ret))"

lemma norm_pattern_eq:
  "norm_pattern db pattern normalize' is_raw_chars ignore_escape =
     (let is_bytes = isinstance_bytes pattern in
      if \<not> normalize' \<and> \<not> is_raw_chars \<and> \<not> ignore_escape then Inr pattern
      else
        (case sub db is_bytes (norm db is_bytes normalize' is_raw_chars ignore_escape) 0
                (units pattern) of
           Inl e \<Rightarrow> Inl e
         | Inr out \<Rightarrow> Inr (to_pattern is_bytes out)))"
  by (simp add: norm_pattern_def norm_pattern_run_def Let_def split: sum.split)

section \<open>One step of the scan\<close>

lemma emit_Inr [simp]: "emit char (Inr out) = Inr (char @ out)"
  by (simp add: emit_def)

lemma emit_Inl [simp]: "emit char (Inl e) = Inl e"
  by (simp add: emit_def)

lemma emit_emit [simp]: "emit a (emit b rest) = emit (a @ b) rest"
  by (cases rest) simp_all

lemma emit_Nil [simp]: "emit [] rest = rest"
  by (cases rest) simp_all

lemma sub_Nil [simp]: "sub db is_bytes repl pos [] = Inr []"
  by (simp add: sub.simps)

lemma sub_None:
  "pat db is_bytes pos (c # t) = None \<Longrightarrow>
   sub db is_bytes repl pos (c # t) = emit [c] (sub db is_bytes repl (Suc pos) t)"
  by (subst sub.simps) simp

lemma sub_Some:
  "pat db is_bytes pos (c # t) = Some m \<Longrightarrow> repl m = Inr char \<Longrightarrow>
   sub db is_bytes repl pos (c # t) =
     emit char
       (sub db is_bytes repl (pos + length (group0 m)) (drop (length (group0 m)) (c # t)))"
  by (subst sub.simps) simp

lemma sub_Error:
  "pat db is_bytes pos (c # t) = Some m \<Longrightarrow> repl m = Inl e \<Longrightarrow>
   sub db is_bytes repl pos (c # t) = Inl e"
  by (subst sub.simps) simp

section \<open>What the expressions match at the head of a string\<close>

lemma pat_plain: "c \<noteq> 47 \<Longrightarrow> c \<noteq> 92 \<Longrightarrow> pat db is_bytes pos (c # t) = None"
  by (simp add: pat_def RE_NORM_def RE_BNORM_def slash_alt_def standard_alt_def numeric_alt_def
        named_alt_def other_alt_def prefix_alt_def split: list.split)

lemma pat_lone: "pat db is_bytes pos [92] = None"
  by (simp add: pat_def RE_NORM_def RE_BNORM_def slash_alt_def standard_alt_def numeric_alt_def
        named_alt_def other_alt_def prefix_alt_def)

lemma pat_slash:
  "pat db is_bytes pos (47 # t) = Some \<lparr>start = pos, group0 = [47], groups = [1 \<mapsto> [47]]\<rparr>"
  by (simp add: pat_def RE_NORM_def RE_BNORM_def slash_alt_def)

lemma pat_escaped_slash:
  "pat db is_bytes pos (92 # 47 # t) =
     Some \<lparr>start = pos, group0 = [92, 47], groups = [1 \<mapsto> [92, 47]]\<rparr>"
  by (simp add: pat_def RE_NORM_def RE_BNORM_def slash_alt_def)

lemma standard_not_slash: "is_standard d \<Longrightarrow> d \<noteq> 47"
  by (auto simp: is_standard_def)

lemma pat_standard:
  "is_standard d \<Longrightarrow>
   pat db is_bytes pos (92 # d # t) = Some \<lparr>start = pos, group0 = [92, d], groups = [2 \<mapsto> [92, d]]\<rparr>"
  by (simp add: pat_def RE_NORM_def RE_BNORM_def slash_alt_def standard_alt_def standard_not_slash)

lemma pat_numeric:
  "d \<noteq> 47 \<Longrightarrow> \<not> is_standard d \<Longrightarrow> numeric_alt db is_bytes (92 # d # t) = Some (g, oct) \<Longrightarrow>
   pat db is_bytes pos (92 # d # t) =
     Some \<lparr>start = pos, group0 = g,
           groups = (case oct of None \<Rightarrow> [3 \<mapsto> g] | Some v \<Rightarrow> [3 \<mapsto> g, 4 \<mapsto> v])\<rparr>"
  by (cases is_bytes; cases oct)
     (simp_all add: pat_def RE_NORM_def RE_BNORM_def slash_alt_def standard_alt_def)

lemma pat_named:
  "numeric_alt db False (92 # 78 # t) = None \<Longrightarrow> named_alt (92 # 78 # t) = Some g \<Longrightarrow>
   pat db False pos (92 # 78 # t) = Some \<lparr>start = pos, group0 = g, groups = [5 \<mapsto> g]\<rparr>"
  by (simp add: pat_def RE_NORM_def slash_alt_def standard_alt_def is_standard_def)

lemma pat_other:
  "d \<noteq> 47 \<Longrightarrow> \<not> is_standard d \<Longrightarrow> numeric_alt db False (92 # d # t) = None \<Longrightarrow>
   \<not> is_prefix_char d \<Longrightarrow>
   pat db False pos (92 # d # t) = Some \<lparr>start = pos, group0 = [92, d], groups = [6 \<mapsto> [92, d]]\<rparr>"
  by (simp add: pat_def RE_NORM_def slash_alt_def standard_alt_def named_alt_def other_alt_def
        is_prefix_char_def)

lemma prefix_char_not_standard: "is_prefix_char d \<Longrightarrow> d \<noteq> 47 \<and> \<not> is_standard d"
  by (auto simp: is_prefix_char_def is_standard_def)

lemma pat_prefix_only:
  "is_prefix_char d \<Longrightarrow> numeric_alt db False (92 # d # t) = None \<Longrightarrow>
   named_alt (92 # d # t) = None \<Longrightarrow>
   pat db False pos (92 # d # t) = Some \<lparr>start = pos, group0 = [92, d], groups = [7 \<mapsto> [92, d]]\<rparr>"
  using prefix_char_not_standard[of d]
  by (simp add: pat_def RE_NORM_def slash_alt_def standard_alt_def other_alt_def prefix_alt_def)

lemma bpat_other:
  "d \<noteq> 47 \<Longrightarrow> \<not> is_standard d \<Longrightarrow> numeric_alt db True (92 # d # t) = None \<Longrightarrow> d \<noteq> 120 \<Longrightarrow>
   pat db True pos (92 # d # t) = Some \<lparr>start = pos, group0 = [92, d], groups = [5 \<mapsto> [92, d]]\<rparr>"
  by (simp add: pat_def RE_BNORM_def slash_alt_def standard_alt_def other_alt_def)

lemma bpat_prefix_only:
  "numeric_alt db True (92 # 120 # t) = None \<Longrightarrow>
   pat db True pos (92 # 120 # t) =
     Some \<lparr>start = pos, group0 = [92, 120], groups = [6 \<mapsto> [92, 120]]\<rparr>"
  by (simp add: pat_def RE_BNORM_def slash_alt_def standard_alt_def other_alt_def prefix_alt_def
        is_standard_def)

section \<open>Evaluating the replacement function\<close>

lemma replicate4: "replicate 4 x = [x, x, x, x]"
  by (simp add: numeral_Bit0 replicate_add)

lemmas norm_eval = norm_def group_def truthy_def text_of_def Let_def replicate4

lemmas scan_eval =
  sub.simps pat_def RE_NORM_def RE_BNORM_def slash_alt_def standard_alt_def numeric_alt_def
  named_alt_def other_alt_def prefix_alt_def hexn_def is_hex_def hex_value_def digit_value_def
  is_octal_def octal_value_def is_standard_def is_prefix_char_def norm_eval
  chr_def bytes1_def BACK_SLASH_TRANSLATION_def to_pattern_def norm_pattern_eq
  ascii_db_def

lemma step_slash:
  "sub db is_bytes (norm db is_bytes n r ig) pos (47 # t) =
     emit [47] (sub db is_bytes (norm db is_bytes n r ig) (Suc pos) t)"
  by (subst sub.simps) (simp add: pat_slash norm_eval)

lemma step_escaped_slash:
  "sub db is_bytes (norm db is_bytes n r ig) pos (92 # 47 # t) =
     emit (if n then [92, 92, 92, 92] else [92, 47])
       (sub db is_bytes (norm db is_bytes n r ig) (Suc (Suc pos)) t)"
  by (subst sub.simps) (simp add: pat_escaped_slash norm_eval)

lemma step_standard:
  "is_standard d \<Longrightarrow>
   sub db is_bytes (norm db is_bytes n r ig) pos (92 # d # t) =
     (if r then
        (case map_of BACK_SLASH_TRANSLATION [92, d] of
           None \<Rightarrow> Inl (KeyError [92, d])
         | Some v \<Rightarrow> emit v (sub db is_bytes (norm db is_bytes n r ig) (Suc (Suc pos)) t))
      else emit [92, d] (sub db is_bytes (norm db is_bytes n r ig) (Suc (Suc pos)) t))"
  by (subst sub.simps) (simp add: pat_standard norm_eval split: option.split)

lemma step_plain:
  "c \<noteq> 47 \<Longrightarrow> c \<noteq> 92 \<Longrightarrow>
   sub db is_bytes repl pos (c # t) = emit [c] (sub db is_bytes repl (Suc pos) t)"
  by (simp add: sub_None pat_plain)

lemma sub_plain_prefix:
  "92 \<notin> set pre \<Longrightarrow>
   sub db is_bytes (norm db is_bytes n r ig) pos (pre @ s) =
     emit pre (sub db is_bytes (norm db is_bytes n r ig) (pos + length pre) s)"
proof (induction pre arbitrary: pos)
  case Nil
  then show ?case by simp
next
  case (Cons c pre)
  then have IH: "sub db is_bytes (norm db is_bytes n r ig) (Suc pos) (pre @ s) =
     emit pre (sub db is_bytes (norm db is_bytes n r ig) (Suc pos + length pre) s)"
    by simp
  show ?case
  proof (cases "c = 47")
    case True
    then show ?thesis using IH by (simp add: step_slash)
  next
    case False
    moreover have "c \<noteq> 92" using Cons.prems by auto
    ultimately show ?thesis using IH by (simp add: step_plain)
  qed
qed

section \<open>Separators, the fast path and the standard escapes\<close>

text \<open>
  C6. Separator normalization. Wherever the scan stands (at offset \<open>pos\<close>, with the rest
  of the pattern to read), in either alphabet: an escaped separator \<open>\/\<close> is replaced
  by four backslashes when \<open>normalize\<close> is set and left as it is otherwise, and a bare
  \<open>/\<close> is always left as it is; the scan goes on behind the separator.
\<close>

theorem separator_normalization:
  "sub db is_bytes (norm db is_bytes n r ig) pos (92 # 47 # t) =
     emit (if n then [92, 92, 92, 92] else [92, 47])
       (sub db is_bytes (norm db is_bytes n r ig) (pos + 2) t)
   \<and> sub db is_bytes (norm db is_bytes n r ig) pos (47 # t) =
     emit [47] (sub db is_bytes (norm db is_bytes n r ig) (pos + 1) t)"
  by (simp only: step_slash step_escaped_slash) simp

theorem separator_normalization_witness:
  "norm_pattern ascii_db (Str [97, 92, 47, 98, 47]) True False False
     = Inr (Str [97, 92, 92, 92, 92, 98, 47])
   \<and> norm_pattern ascii_db (Bytes [97, 92, 47, 98, 47]) False True False
     = Inr (Bytes [97, 92, 47, 98, 47])"
  using separator_normalization[of ascii_db False True False False 1 "[98, 47]"]
    separator_normalization[of ascii_db True False True False 1 "[98, 47]"]
  by (simp add: scan_eval)

text \<open>
  C7. The fast path: with none of the three flags set, \<open>norm_pattern\<close> returns the very
  object it was handed, so its value is the pattern, and it has not called \<open>pat.sub\<close>:
  nothing was scanned. This for every pattern of either alphabet and whatever the
  Unicode tables hold.
\<close>

theorem fast_path_identity:
  "norm_pattern_run db p False False False = (Inr Argument, [])
   \<and> norm_pattern db p False False False = Inr p"
  by (simp add: norm_pattern_def norm_pattern_run_def)

text \<open>
  With a flag set the same pattern is scanned, and what comes back is the object
  \<open>pat.sub\<close> returned, of the same value here.
\<close>

theorem fast_path_identity_witness:
  "norm_pattern_run ascii_db (Str [92, 117, 49, 50]) False False False = (Inr Argument, [])
   \<and> norm_pattern ascii_db (Bytes [92, 120]) False False False = Inr (Bytes [92, 120])
   \<and> norm_pattern_run ascii_db (Str [92, 117, 49, 50]) True False False =
       (Inr (Sub_result (Str [92, 117, 49, 50])), [Pat_sub False [92, 117, 49, 50]])"
  using fast_path_identity[of ascii_db "Str [92, 117, 49, 50]"]
    fast_path_identity[of ascii_db "Bytes [92, 120]"]
  by (simp add: norm_pattern_run_def scan_eval)

text \<open>
  C3, as the code has it. With \<open>is_raw_chars\<close> set, each of \<open>\a \b \f \n \r \t \v\<close> is
  replaced by the one control character it denotes (7, 8, 12, 10, 13, 9, 11), and
  \<open>\\\<close> by itself, the two backslashes it already is: the pattern compiler still reads
  a backslash as an escape. With \<open>is_raw_chars\<close> unset the two units are left as they
  are. In both alphabets, wherever the scan stands.
\<close>

theorem standard_escape_decoding:
  "(d, v) \<in> {(97, [7]), (98, [8]), (102, [12]), (110, [10]), (114, [13]), (116, [9]),
              (118, [11]), (92, [92, 92])} \<Longrightarrow>
   sub db is_bytes (norm db is_bytes n r ig) pos (92 # d # t) =
     emit (if r then v else [92, d]) (sub db is_bytes (norm db is_bytes n r ig) (pos + 2) t)"
  by (auto simp: step_standard is_standard_def BACK_SLASH_TRANSLATION_def)

theorem standard_escape_decoding_witness:
  "norm_pattern ascii_db (Str [102, 111, 111, 92, 110, 98, 97, 114]) False True False
     = Inr (Str [102, 111, 111, 10, 98, 97, 114])"
  using standard_escape_decoding[of 110 "[10]" ascii_db False False True False 3 "[98, 97, 114]"]
  by (simp add: scan_eval)

text \<open>
  The escaped backslash does not become one backslash: \<open>BACK_SLASH_TRANSLATION\<close> maps
  the two units to the same two units.
\<close>

theorem standard_escape_backslash_counterexample:
  "norm_pattern ascii_db (Str [92, 92]) False True False = Inr (Str [92, 92])
   \<and> norm_pattern ascii_db (Str [92, 92]) False True False \<noteq> Inr (Str [92])"
  by (simp add: scan_eval)

section \<open>Scans that cannot fail\<close>

lemma norm_not_raw:
  "\<exists>char. norm db is_bytes n False ig m = Inr char"
  by (simp add: norm_def Let_def)

lemma sub_total_not_raw:
  "repl = norm db is_bytes n False ig \<Longrightarrow> \<exists>out. sub db is_bytes repl pos s = Inr out"
proof (induction db is_bytes repl pos s rule: sub.induct)
  case (1 db is_bytes repl pos s)
  show ?case
  proof (cases s)
    case Nil
    then show ?thesis by simp
  next
    case (Cons c t)
    show ?thesis
    proof (cases "pat db is_bytes pos s")
      case None
      with Cons "1.IH"(1)[OF Cons None "1.prems"] show ?thesis
        by (auto simp: sub_None)
    next
      case (Some m)
      from norm_not_raw[of db is_bytes n ig m] "1.prems"
      obtain char where r: "repl m = Inr char" by auto
      from "1.IH"(2)[OF Cons Some r "1.prems"] Cons Some r show ?thesis
        by (auto simp: sub_Some)
    qed
  qed
qed

text \<open>
  C10. With \<open>is_raw_chars\<close> unset \<open>norm_pattern\<close> returns a pattern, for every pattern
  of either alphabet, every value of \<open>normalize\<close> and \<open>ignore_escape\<close> and whatever the
  Unicode tables hold: the scan ends (\<open>sub\<close> is a total function) and no match reaches
  the \<open>raise\<close>.
\<close>

theorem norm_pattern_total_raw_off:
  "\<exists>q. norm_pattern db p n False ig = Inr q"
proof -
  obtain out where
    "sub db (isinstance_bytes p) (norm db (isinstance_bytes p) n False ig) 0 (units p) = Inr out"
    using sub_total_not_raw[OF refl] by blast
  then show ?thesis by (simp add: norm_pattern_eq Let_def)
qed

theorem norm_pattern_total_raw_off_witness:
  "(\<exists>q. norm_pattern ascii_db (Str [92, 117, 49, 50]) True False False = Inr q)
   \<and> norm_pattern ascii_db (Str [92, 117, 49, 50]) True False False = Inr (Str [92, 117, 49, 50])
   \<and> norm_pattern ascii_db (Bytes [92, 120]) False False True = Inr (Bytes [92, 92, 120])"
  using norm_pattern_total_raw_off[of ascii_db "Str [92, 117, 49, 50]" True False]
  by (simp add: scan_eval)

section \<open>Bytes patterns have no unicode escapes\<close>

lemma bytes_numeric_none:
  "c \<in> {117, 85, 78} \<Longrightarrow> numeric_alt db True (92 # c # t) = None"
  by (auto simp: numeric_alt_def is_octal_def)

lemma bytes_opaque_match:
  assumes "c \<in> {117, 85, 78}"
  shows "pat db True pos (92 # c # t) =
           Some \<lparr>start = pos, group0 = [92, c], groups = [5 \<mapsto> [92, c]]\<rparr>"
proof -
  have "c \<noteq> 47" "\<not> is_standard c" "c \<noteq> 120"
    using assms by (auto simp: is_standard_def)
  then show ?thesis using bytes_numeric_none[OF assms] by (simp add: bpat_other)
qed

text \<open>
  C5. In a bytes pattern \<open>\u\<close>, \<open>\U\<close> and \<open>\N\<close> are matched by the fifth group of
  \<open>RE_BNORM\<close>, a backslash and any unit but \<open>x\<close>, whatever follows them; the two units
  are passed through (behind one more backslash when \<open>ignore_escape\<close> is set) and the
  scan goes on with the unit after them. So \<open>b"A"\<close> comes back as it is.
\<close>

theorem bytes_unicode_escape_opaque:
  "c \<in> {117, 85, 78} \<Longrightarrow>
   pat db True pos (92 # c # t) =
     Some \<lparr>start = pos, group0 = [92, c], groups = [5 \<mapsto> [92, c]]\<rparr>
   \<and> sub db True (norm db True n r ig) pos (92 # c # t) =
       emit (if ig then [92, 92, c] else [92, c]) (sub db True (norm db True n r ig) (pos + 2) t)
   \<and> norm_pattern db (Bytes [92, 117, 48, 48, 52, 49]) False True False =
       Inr (Bytes [92, 117, 48, 48, 52, 49])"
proof (intro conjI)
  assume c: "c \<in> {117, 85, 78}"
  show m: "pat db True pos (92 # c # t) =
     Some \<lparr>start = pos, group0 = [92, c], groups = [5 \<mapsto> [92, c]]\<rparr>"
    by (rule bytes_opaque_match[OF c])
  show "sub db True (norm db True n r ig) pos (92 # c # t) =
       emit (if ig then [92, 92, c] else [92, c]) (sub db True (norm db True n r ig) (pos + 2) t)"
    by (subst sub.simps) (simp add: m norm_eval)
  have "sub db True (norm db True False True False) 0 [92, 117, 48, 48, 52, 49] =
      emit [92, 117]
        (sub db True (norm db True False True False) (Suc (Suc 0)) [48, 48, 52, 49])"
    by (subst sub.simps) (simp add: bytes_opaque_match norm_eval)
  also have "\<dots> = Inr [92, 117, 48, 48, 52, 49]"
    by (simp add: step_plain)
  finally show "norm_pattern db (Bytes [92, 117, 48, 48, 52, 49]) False True False =
       Inr (Bytes [92, 117, 48, 48, 52, 49])"
    by (simp add: norm_pattern_eq to_pattern_def)
qed

theorem bytes_unicode_escape_opaque_witness:
  "pat ascii_db True 0 [92, 117, 48, 48, 52, 49] =
     Some \<lparr>start = 0, group0 = [92, 117], groups = [5 \<mapsto> [92, 117]]\<rparr>
   \<and> norm_pattern ascii_db (Bytes [92, 78, 123, 65, 125]) False True False =
       Inr (Bytes [92, 78, 123, 65, 125])"
  using bytes_unicode_escape_opaque[of 117 ascii_db 0 "[48, 48, 52, 49]" False True False]
  by (simp add: scan_eval)

section \<open>Malformed escapes\<close>

text \<open>
  A recognized escape prefix that is not followed by what it requires: \<open>\x\<close> without
  two hexadecimal digits in either alphabet and, in a str pattern, \<open>\u\<close> without four,
  \<open>\U\<close> without eight, and \<open>\N\<close> without a braced name. \<open>t\<close> is what follows the two
  units of the prefix.
\<close>

definition lacks_suffix :: "unicodedata \<Rightarrow> bool \<Rightarrow> nat \<Rightarrow> nat list \<Rightarrow> bool" where
  "lacks_suffix db is_bytes c t =
     (if c = 120 then \<not> hexn db is_bytes 2 t
      else if is_bytes then False
      else if c = 117 then \<not> hexn db False 4 t
      else if c = 85 then \<not> hexn db False 8 t
      else if c = 78 then \<not> (take 1 t = [123] \<and> 125 \<in> set (drop 1 t))
      else False)"

lemma lacks_suffix_prefix_char: "lacks_suffix db is_bytes c t \<Longrightarrow> is_prefix_char c"
  by (auto simp: lacks_suffix_def is_prefix_char_def split: if_splits)

lemma lacks_suffix_bytes: "lacks_suffix db True c t \<Longrightarrow> c = 120"
  by (auto simp: lacks_suffix_def split: if_splits)

lemma lacks_suffix_numeric:
  "lacks_suffix db is_bytes c t \<Longrightarrow> numeric_alt db is_bytes (92 # c # t) = None"
  by (auto simp: lacks_suffix_def numeric_alt_def is_octal_def split: if_splits)

lemma lacks_suffix_named:
  "lacks_suffix db False c t \<Longrightarrow> named_alt (92 # c # t) = None"
  by (cases t) (auto simp: lacks_suffix_def named_alt_def split: if_splits)

lemma step_malformed:
  assumes "lacks_suffix db is_bytes c t"
  shows "sub db is_bytes (norm db is_bytes n True ig) pos (92 # c # t) =
           Inl (SyntaxError (to_pattern is_bytes [92, c]) pos)"
proof (cases is_bytes)
  case True
  with assms have c: "c = 120" by (simp add: lacks_suffix_bytes)
  have "pat db True pos (92 # 120 # t) =
      Some \<lparr>start = pos, group0 = [92, 120], groups = [6 \<mapsto> [92, 120]]\<rparr>"
    using lacks_suffix_numeric[OF assms] True c by (simp add: bpat_prefix_only)
  then show ?thesis using True c
    by (subst sub.simps) (simp add: norm_eval)
next
  case False
  with assms have a: "lacks_suffix db False c t" by simp
  have "pat db False pos (92 # c # t) =
      Some \<lparr>start = pos, group0 = [92, c], groups = [7 \<mapsto> [92, c]]\<rparr>"
    using lacks_suffix_prefix_char[OF a] lacks_suffix_numeric[OF a] lacks_suffix_named[OF a]
    by (rule pat_prefix_only)
  then show ?thesis using False
    by (subst sub.simps) (simp add: norm_eval)
qed

section \<open>Numeric escapes\<close>

text \<open>The number a string of octal digits denotes.\<close>

definition octal_number :: "nat list \<Rightarrow> nat" where
  "octal_number ds = foldl (\<lambda>a c. a * 8 + (c - 48)) 0 ds"

lemma py_int_octal:
  "list_all is_octal ds \<Longrightarrow>
   py_int octal_value 8 acc ds = Inr (foldl (\<lambda>a c. a * 8 + (c - 48)) acc ds)"
  by (induction ds arbitrary: acc) (simp_all add: octal_value_def)

lemma octal_foldl_bound:
  "list_all is_octal ds \<Longrightarrow>
   foldl (\<lambda>a c. a * 8 + (c - 48)) acc ds < 8 ^ length ds * (acc + 1)"
proof (induction ds arbitrary: acc)
  case Nil
  then show ?case by simp
next
  case (Cons c ds)
  then have ds: "list_all is_octal ds" and "is_octal c" by simp_all
  then have c: "c - 48 < 8" by (auto simp: is_octal_def)
  have "foldl (\<lambda>a c. a * 8 + (c - 48)) (acc * 8 + (c - 48)) ds
      < 8 ^ length ds * (acc * 8 + (c - 48) + 1)"
    by (rule Cons.IH[OF ds])
  also have "\<dots> \<le> 8 ^ length ds * (8 * (acc + 1))"
    using c by (intro mult_le_mono2) simp
  also have "\<dots> = 8 ^ length (c # ds) * (acc + 1)" by (simp add: algebra_simps)
  finally have "foldl (\<lambda>a c. a * 8 + (c - 48)) (acc * 8 + (c - 48)) ds
      < 8 ^ length (c # ds) * (acc + 1)" .
  then show ?case by (simp only: foldl_Cons)
qed

lemma octal_number_bound:
  assumes "list_all is_octal ds" "length ds \<le> 3"
  shows "octal_number ds < 512"
proof -
  have "octal_number ds < 8 ^ length ds"
    using octal_foldl_bound[OF assms(1), of 0] by (simp add: octal_number_def)
  also have "(8::nat) ^ length ds \<le> 8 ^ 3"
    using assms(2) by (intro power_increasing) simp_all
  finally show ?thesis by simp
qed

lemma octal_group:
  "list_all is_octal (takeWhile is_octal (take 3 s)) \<and> length (takeWhile is_octal (take 3 s)) \<le> 3"
proof
  show "list_all is_octal (takeWhile is_octal (take 3 s))"
    by (auto simp: list_all_iff dest: set_takeWhileD)
  have "length (takeWhile is_octal (take 3 s)) \<le> length (take 3 s)"
    by (rule length_takeWhile_le)
  then show "length (takeWhile is_octal (take 3 s)) \<le> 3" by simp
qed

lemma and_255: "(v::nat) AND 255 = v mod 256"
proof -
  have m: "mask 8 = (255::nat)" by (simp add: mask_eq_exp_minus_1)
  have "v AND mask 8 = take_bit 8 v" by (simp only: take_bit_eq_mask)
  also have "\<dots> = v mod 2 ^ 8" by (simp only: take_bit_eq_mod)
  finally show ?thesis by (simp add: m)
qed

lemma hex_value_bound: "hex_value db is_bytes c = Some v \<Longrightarrow> v < 16"
  by (auto simp: hex_value_def digit_value_def split: if_splits)

lemma octal_match:
  assumes "is_octal d"
  shows "pat db is_bytes pos (92 # d # t) =
     Some \<lparr>start = pos, group0 = 92 # takeWhile is_octal (take 3 (d # t)),
           groups = [3 \<mapsto> 92 # takeWhile is_octal (take 3 (d # t)),
                     4 \<mapsto> takeWhile is_octal (take 3 (d # t))]\<rparr>"
proof -
  have d: "d \<noteq> 47" "\<not> is_standard d" "d \<noteq> 85" "d \<noteq> 117" "d \<noteq> 120"
    using assms by (auto simp: is_octal_def is_standard_def)
  have "numeric_alt db is_bytes (92 # d # t) =
      Some (92 # takeWhile is_octal (take 3 (d # t)), Some (takeWhile is_octal (take 3 (d # t))))"
    using d assms by (simp add: numeric_alt_def)
  from pat_numeric[OF d(1) d(2) this] show ?thesis by simp
qed

lemma step_octal:
  assumes "is_octal d"
  shows "sub db is_bytes (norm db is_bytes n True ig) pos (92 # d # t) =
     emit [if is_bytes then octal_number (takeWhile is_octal (take 3 (d # t))) mod 256
           else octal_number (takeWhile is_octal (take 3 (d # t)))]
       (sub db is_bytes (norm db is_bytes n True ig)
          (pos + 1 + length (takeWhile is_octal (take 3 (d # t))))
          (drop (length (takeWhile is_octal (take 3 (d # t)))) (d # t)))"
proof -
  let ?oct = "takeWhile is_octal (take 3 (d # t))"
  have ne: "?oct \<noteq> []" using assms by simp
  have v: "py_int octal_value 8 0 ?oct = Inr (octal_number ?oct)"
    using octal_group[of "d # t"] by (simp add: py_int_octal octal_number_def)
  have b: "octal_number ?oct < 512"
    using octal_group[of "d # t"] by (simp add: octal_number_bound)
  have "norm db is_bytes n True ig
      \<lparr>start = pos, group0 = 92 # ?oct, groups = [3 \<mapsto> 92 # ?oct, 4 \<mapsto> ?oct]\<rparr> =
      Inr [if is_bytes then octal_number ?oct mod 256 else octal_number ?oct]"
    using ne b by (simp add: norm_eval v and_255 bytes1_def chr_def del: takeWhile.simps take_Cons_numeral)
  then show ?thesis
    by (subst sub.simps) (simp add: octal_match[OF assms] del: takeWhile.simps take_Cons_numeral)
qed

lemma hex_match:
  assumes "hex_value db is_bytes h1 = Some v1" "hex_value db is_bytes h2 = Some v2"
  shows "pat db is_bytes pos (92 # 120 # h1 # h2 # t) =
     Some \<lparr>start = pos, group0 = [92, 120, h1, h2], groups = [3 \<mapsto> [92, 120, h1, h2]]\<rparr>"
proof -
  have "numeric_alt db is_bytes (92 # 120 # h1 # h2 # t) = Some ([92, 120, h1, h2], None)"
    using assms by (simp add: numeric_alt_def hexn_def is_hex_def)
  then show ?thesis
    using pat_numeric[of 120 db is_bytes "h1 # h2 # t" "[92, 120, h1, h2]" None pos]
    by (simp add: is_standard_def)
qed

lemma step_hex:
  assumes "hex_value db is_bytes h1 = Some v1" "hex_value db is_bytes h2 = Some v2"
  shows "sub db is_bytes (norm db is_bytes n True ig) pos (92 # 120 # h1 # h2 # t) =
     emit [16 * v1 + v2]
       (sub db is_bytes (norm db is_bytes n True ig) (Suc (Suc (Suc (Suc pos)))) t)"
proof -
  have b: "16 * v1 + v2 < 256"
    using hex_value_bound[OF assms(1)] hex_value_bound[OF assms(2)] by simp
  have "norm db is_bytes n True ig
      \<lparr>start = pos, group0 = [92, 120, h1, h2], groups = [3 \<mapsto> [92, 120, h1, h2]]\<rparr> =
      Inr [16 * v1 + v2]"
    using b assms by (simp add: norm_eval bytes1_def chr_def mult.commute)
  then show ?thesis
    by (subst sub.simps) (simp add: hex_match[OF assms])
qed

text \<open>
  C4, as the code has it. With \<open>is_raw_chars\<close> set, wherever the scan stands: a
  backslash and the one to three octal digits behind it are replaced by one unit, the
  number the digits denote; in a bytes pattern that number is masked to one byte, in a
  str pattern it is not (up to 511). \<open>\x\<close> and two hexadecimal digits are replaced by
  the one unit of that value in both alphabets.
\<close>

theorem numeric_escape_decoding:
  "(is_octal d \<and> oct = takeWhile is_octal (take 3 (d # t)) \<longrightarrow>
      sub db is_bytes (norm db is_bytes n True ig) pos (92 # d # t) =
        emit [if is_bytes then octal_number oct mod 256 else octal_number oct]
          (sub db is_bytes (norm db is_bytes n True ig) (pos + 1 + length oct)
             (drop (length oct) (d # t))))
   \<and> (hex_value db is_bytes ha = Some va \<and> hex_value db is_bytes hb = Some vb \<longrightarrow>
      sub db is_bytes (norm db is_bytes n True ig) pos (92 # 120 # ha # hb # u) =
        emit [16 * va + vb] (sub db is_bytes (norm db is_bytes n True ig) (pos + 4) u))"
proof -
  have e: "pos + 4 = Suc (Suc (Suc (Suc pos)))" by simp
  show ?thesis
    unfolding e
    using step_octal[of d db is_bytes n ig pos t] step_hex[of db is_bytes ha va hb vb n ig pos u]
    by blast
qed

theorem numeric_escape_decoding_witness:
  "norm_pattern ascii_db (Str [92, 49, 48, 49]) False True False = Inr (Str [65])
   \<and> norm_pattern ascii_db (Str [92, 120, 52, 49]) False True False = Inr (Str [65])
   \<and> norm_pattern ascii_db (Bytes [92, 55, 55, 55]) False True False = Inr (Bytes [255])
   \<and> norm_pattern ascii_db (Bytes [92, 120, 102, 70]) False True False = Inr (Bytes [255])"
  using numeric_escape_decoding[where d = 49 and t = "[48, 49]" and oct = "[49, 48, 49]"
      and db = ascii_db and is_bytes = False and ha = 52 and hb = 49 and va = 4 and vb = 1
      and n = False and ig = False and pos = 0 and u = "[]"]
  by (simp add: scan_eval)

text \<open>
  In a str pattern the octal value is not masked: \<open>\777\<close> becomes the code point 511.
\<close>

theorem octal_mask_counterexample:
  "norm_pattern ascii_db (Str [92, 55, 55, 55]) False True False = Inr (Str [511])
   \<and> norm_pattern ascii_db (Str [92, 55, 55, 55]) False True False \<noteq> Inr (Str [255])"
  by (simp add: scan_eval)

section \<open>fnmatch.py: the flags\<close>

text \<open>
  The flag constants are those of \<open>_wcparse\<close>, Python integers; \<open>fnmatch.py\<close> only renames
  them. They are a parameter of everything below.
\<close>

record wcparse =
  CASE :: int
  IGNORECASE :: int
  RAWCHARS :: int
  NEGATE :: int
  MINUSNEGATE :: int
  DOTMATCH :: int
  EXTMATCH :: int
  BRACE :: int
  SPLIT :: int
  NEGATEALL :: int
  FORCEWIN :: int
  FORCEUNIX :: int

definition FLAG_MASK :: "wcparse \<Rightarrow> int" where
  "FLAG_MASK w =
     (CASE w OR IGNORECASE w OR RAWCHARS w OR NEGATE w OR MINUSNEGATE w OR DOTMATCH w OR
      EXTMATCH w OR BRACE w OR SPLIT w OR NEGATEALL w OR FORCEWIN w OR FORCEUNIX w)"

text \<open>\<open>_flag_transform\<close>; a Python integer is true when it is not zero.\<close>

definition flag_transform :: "wcparse \<Rightarrow> int \<Rightarrow> int" where
  "flag_transform w flags =
     (let flags = (if flags AND FORCEUNIX w \<noteq> 0 \<and> flags AND FORCEWIN w \<noteq> 0
                   then flags XOR (FORCEWIN w OR FORCEUNIX w) else flags)
      in flags AND FLAG_MASK w)"

text \<open>An assignment of one bit to each flag, for the examples.\<close>

definition wcparse_bits :: wcparse where
  "wcparse_bits =
     \<lparr>CASE = 1, IGNORECASE = 2, RAWCHARS = 4, NEGATE = 8, MINUSNEGATE = 16, DOTMATCH = 64,
      EXTMATCH = 128, BRACE = 512, SPLIT = 4096, NEGATEALL = 32768, FORCEWIN = 65536,
      FORCEUNIX = 131072\<rparr>"

lemma bit_FLAG_MASK_FORCEWIN: "FORCEWIN w = 2 ^ i \<Longrightarrow> bit (FLAG_MASK w) i"
  by (simp add: FLAG_MASK_def bit_or_iff bit_exp_iff)

lemma bit_FLAG_MASK_FORCEUNIX: "FORCEUNIX w = 2 ^ j \<Longrightarrow> bit (FLAG_MASK w) j"
  by (simp add: FLAG_MASK_def bit_or_iff bit_exp_iff)

lemma flag_transform_bit:
  assumes "FORCEWIN w = 2 ^ i" "FORCEUNIX w = 2 ^ j"
  shows "bit (flag_transform w flags) k \<longleftrightarrow>
           bit (FLAG_MASK w) k \<and> bit flags k \<and> \<not> ((k = i \<or> k = j) \<and> bit flags i \<and> bit flags j)"
proof -
  have a: "flags AND FORCEWIN w \<noteq> 0 \<longleftrightarrow> bit flags i"
    using assms(1) by (simp add: and_exp_eq_0_iff_not_bit)
  have b: "flags AND FORCEUNIX w \<noteq> 0 \<longleftrightarrow> bit flags j"
    using assms(2) by (simp add: and_exp_eq_0_iff_not_bit)
  show ?thesis
    unfolding flag_transform_def Let_def a b
    using assms by (auto simp: bit_and_iff bit_xor_iff bit_or_iff bit_exp_iff)
qed

text \<open>
  C8. Where \<open>FORCEWIN\<close> and \<open>FORCEUNIX\<close> are single bits: \<open>_flag_transform\<close> clears both
  when both are set and then keeps the bits of \<open>FLAG_MASK\<close> only; so the two are never
  both set in its result, no bit outside \<open>FLAG_MASK\<close> is, and on those two bits the
  result for \<open>FORCEWIN | FORCEUNIX\<close> is the result for 0.
\<close>

theorem flag_resolution:
  assumes "FORCEWIN w = 2 ^ i" "FORCEUNIX w = 2 ^ j"
  shows "flag_transform w flags =
           (if bit flags i \<and> bit flags j then flags AND NOT (FORCEWIN w OR FORCEUNIX w)
            else flags) AND FLAG_MASK w
         \<and> \<not> (bit (flag_transform w flags) i \<and> bit (flag_transform w flags) j)
         \<and> flag_transform w flags AND NOT (FLAG_MASK w) = 0
         \<and> flag_transform w (FORCEWIN w OR FORCEUNIX w) AND (FORCEWIN w OR FORCEUNIX w) =
             flag_transform w 0 AND (FORCEWIN w OR FORCEUNIX w)"
proof (intro conjI)
  note ch = flag_transform_bit[OF assms]
  show "flag_transform w flags =
           (if bit flags i \<and> bit flags j then flags AND NOT (FORCEWIN w OR FORCEUNIX w)
            else flags) AND FLAG_MASK w"
    by (rule bit_eqI) (auto simp: ch assms bit_and_iff bit_or_iff bit_not_iff bit_exp_iff)
  show "\<not> (bit (flag_transform w flags) i \<and> bit (flag_transform w flags) j)"
    by (auto simp: ch)
  show "flag_transform w flags AND NOT (FLAG_MASK w) = 0"
    by (rule bit_eqI) (auto simp: ch bit_and_iff bit_not_iff)
  show "flag_transform w (FORCEWIN w OR FORCEUNIX w) AND (FORCEWIN w OR FORCEUNIX w) =
             flag_transform w 0 AND (FORCEWIN w OR FORCEUNIX w)"
    by (rule bit_eqI) (auto simp: ch assms bit_and_iff bit_or_iff bit_exp_iff)
qed

theorem flag_resolution_witness:
  "FORCEWIN wcparse_bits = 2 ^ 16 \<and> FORCEUNIX wcparse_bits = 2 ^ 17
   \<and> flag_transform wcparse_bits 1245188 = 4
   \<and> flag_transform wcparse_bits 196608 = 0
   \<and> flag_transform wcparse_bits 65540 = 65540"
  using flag_resolution[of wcparse_bits 16 17 1245188]
  by (simp add: wcparse_bits_def flag_transform_def FLAG_MASK_def)

section \<open>fnmatch.py: fnmatch and filter\<close>

text \<open>
  \<open>_wcparse.compile\<close> and the \<open>match\<close> method of the object it returns are not part of
  these sources. Both are parameters: \<open>compile\<close> takes the patterns, the flags, the
  limit and the exclusion patterns and returns a matcher, or raises; a matcher takes a
  file name and returns whether it matches, or raises. Each function returns, beside its
  result, the calls it made of the two, in order.
\<close>

type_synonym ('f, 'e) matcher = "'f \<Rightarrow> 'e + bool"

type_synonym ('p, 'l, 'x, 'f, 'e) compiler = "'p \<Rightarrow> int \<Rightarrow> 'l \<Rightarrow> 'x \<Rightarrow> 'e + ('f, 'e) matcher"

datatype ('p, 'l, 'x, 'f) call = is_Compile: Compile 'p int 'l 'x | Match 'f

definition fnmatch ::
  "wcparse \<Rightarrow> ('p, 'l, 'x, 'f, 'e) compiler \<Rightarrow> 'f \<Rightarrow> 'p \<Rightarrow> int \<Rightarrow> 'l \<Rightarrow> 'x
     \<Rightarrow> ('e + bool) \<times> ('p, 'l, 'x, 'f) call list" where
  "fnmatch w compile filename patterns flags limit exclude =
     (let flags = flag_transform w flags in
      case compile patterns flags limit exclude of
        Inl e \<Rightarrow> (Inl e, [Compile patterns flags limit exclude])
      | Inr obj \<Rightarrow> (obj filename, [Compile patterns flags limit exclude, Match filename]))"

text \<open>The \<open>for\<close> loop of \<open>filter\<close>, over the file names still to be seen.\<close>

fun filter_loop ::
  "('f, 'e) matcher \<Rightarrow> 'f list \<Rightarrow> 'f list \<Rightarrow> ('p, 'l, 'x, 'f) call list
     \<Rightarrow> ('e + 'f list) \<times> ('p, 'l, 'x, 'f) call list" where
  "filter_loop obj [] matches calls = (Inr matches, calls)"
| "filter_loop obj (filename # filenames) matches calls =
     (case obj filename of
        Inl e \<Rightarrow> (Inl e, calls @ [Match filename])
      | Inr b \<Rightarrow>
          filter_loop obj filenames (if b then matches @ [filename] else matches)
            (calls @ [Match filename]))"

definition filter' ::
  "wcparse \<Rightarrow> ('p, 'l, 'x, 'f, 'e) compiler \<Rightarrow> 'f list \<Rightarrow> 'p \<Rightarrow> int \<Rightarrow> 'l \<Rightarrow> 'x
     \<Rightarrow> ('e + 'f list) \<times> ('p, 'l, 'x, 'f) call list" where
  "filter' w compile filenames patterns flags limit exclude =
     (let matches = [];
          flags = flag_transform w flags in
      case compile patterns flags limit exclude of
        Inl e \<Rightarrow> (Inl e, [Compile patterns flags limit exclude])
      | Inr obj \<Rightarrow> filter_loop obj filenames matches [Compile patterns flags limit exclude])"

lemma filter_loop_Inr:
  "filter_loop obj filenames matches calls = (Inr ms, tr) \<longleftrightarrow>
     (\<forall>f \<in> set filenames. \<exists>b. obj f = Inr b)
     \<and> ms = matches @ filter (\<lambda>f. obj f = Inr True) filenames
     \<and> tr = calls @ map Match filenames"
proof (induction filenames arbitrary: matches calls)
  case Nil
  then show ?case by auto
next
  case (Cons f fs)
  show ?case
  proof (cases "obj f")
    case (Inl e)
    then show ?thesis by auto
  next
    case (Inr b)
    then show ?thesis using Cons.IH by (cases b) auto
  qed
qed

text \<open>
  C9. \<open>filter\<close> returns a list exactly when \<open>compile\<close> returns a matcher and the matcher
  returns for every file name; the list is then the file names for which \<open>fnmatch\<close>,
  called with the same patterns, flags, limit and exclusions, returns true, in the
  order of the input and so a subsequence of it; and \<open>filter\<close> has then called \<open>compile\<close>
  once, before anything else, and \<open>match\<close> once for each file name in turn.
\<close>

theorem filter_agrees_with_fnmatch:
  "filter' w compile filenames patterns flags limit exclude = (Inr ms, tr) \<longleftrightarrow>
     (\<exists>obj. compile patterns (flag_transform w flags) limit exclude = Inr obj
        \<and> (\<forall>f \<in> set filenames. \<exists>b. obj f = Inr b))
     \<and> ms = filter (\<lambda>f. fst (fnmatch w compile f patterns flags limit exclude) = Inr True)
              filenames
     \<and> subseq ms filenames
     \<and> tr = Compile patterns (flag_transform w flags) limit exclude # map Match filenames
     \<and> length (filter is_Compile tr) = 1"
proof (cases "compile patterns (flag_transform w flags) limit exclude")
  case (Inl e)
  then show ?thesis by (simp add: filter'_def)
next
  case (Inr obj)
  have c: "filter is_Compile (map Match filenames) = ([] :: ('a, 'c, 'd, 'b) call list)"
    by (induction filenames) simp_all
  have "filter' w compile filenames patterns flags limit exclude = (Inr ms, tr) \<longleftrightarrow>
      (\<forall>f \<in> set filenames. \<exists>b. obj f = Inr b)
      \<and> ms = filter (\<lambda>f. obj f = Inr True) filenames
      \<and> tr = Compile patterns (flag_transform w flags) limit exclude # map Match filenames"
    using Inr by (simp add: filter'_def filter_loop_Inr)
  moreover have "fst (fnmatch w compile f patterns flags limit exclude) = obj f" for f
    using Inr by (simp add: fnmatch_def)
  ultimately show ?thesis
    using Inr by (auto simp: c)
qed

theorem filter_agrees_with_fnmatch_witness:
  "filter' wcparse_bits (\<lambda>p fl l x. Inr (\<lambda>f. (Inr (f = p) :: unit + bool)))
      [[97], [98], [97::nat]] [97] 196608 (1000::nat) ()
     = (Inr [[97], [97]],
        [Compile [97] 0 1000 (), Match [97], Match [98], Match [97]])"
  using filter_agrees_with_fnmatch[of wcparse_bits
      "\<lambda>p fl l x. Inr (\<lambda>f. (Inr (f = p) :: unit + bool))"
      "[[97], [98], [97::nat]]" "[97]" 196608 "1000::nat" "()"
      "[[97], [97]]" "[Compile [97] 0 1000 (), Match [97], Match [98], Match [97]]"]
  by (simp add: filter'_def wcparse_bits_def flag_transform_def FLAG_MASK_def)

section \<open>Scanning the output of a scan\<close>

text \<open>
  What the text behind a token keeps, when it is replaced by its own scan with
  \<open>is_raw_chars\<close> unset: its first unit, its units up to the first backslash, and no
  unit but backslashes is new.
\<close>

definition rescan_rel :: "nat list \<Rightarrow> nat list \<Rightarrow> bool" where
  "rescan_rel s out \<longleftrightarrow>
     take 1 out = take 1 s
     \<and> takeWhile (\<lambda>c. c \<noteq> 92) out = takeWhile (\<lambda>c. c \<noteq> 92) s
     \<and> set out \<subseteq> insert 92 (set s)"

lemma not_hex_92: "\<not> is_hex db is_bytes 92"
  by (simp add: is_hex_def hex_value_def digit_value_def)

lemma hexn_Nil: "hexn db is_bytes k [] \<longleftrightarrow> k = 0"
  by (simp add: hexn_def)

lemma hexn_Cons:
  "hexn db is_bytes (Suc k) (c # s) \<longleftrightarrow> is_hex db is_bytes c \<and> hexn db is_bytes k s"
  by (auto simp: hexn_def)

lemma hexn_0: "hexn db is_bytes 0 s"
  by (simp add: hexn_def)

lemma hexn_takeWhile:
  "hexn db is_bytes k (takeWhile (\<lambda>c. c \<noteq> 92) s) = hexn db is_bytes k s"
proof (induction s arbitrary: k)
  case Nil
  then show ?case by simp
next
  case (Cons c s)
  show ?case
  proof (cases k)
    case 0
    then show ?thesis by (simp add: hexn_0)
  next
    case (Suc j)
    then show ?thesis using Cons.IH[of j] not_hex_92[of db is_bytes]
      by (auto simp: hexn_Cons hexn_Nil)
  qed
qed

lemma hexn_rescan: "rescan_rel s out \<Longrightarrow> hexn db is_bytes k out = hexn db is_bytes k s"
  using hexn_takeWhile[of db is_bytes k out] hexn_takeWhile[of db is_bytes k s]
  by (simp add: rescan_rel_def)

lemma hexn_append:
  "hexn db is_bytes k r \<Longrightarrow> hexn db is_bytes k (take k r @ out) \<and> take k (take k r @ out) = take k r"
  by (simp add: hexn_def)

lemma octal_stable:
  assumes "take 1 out = take 1 (drop (length (takeWhile is_octal (take 3 u))) u)"
  shows "takeWhile is_octal (take 3 (takeWhile is_octal (take 3 u) @ out)) =
           takeWhile is_octal (take 3 u)"
proof -
  let ?oct = "takeWhile is_octal (take 3 u)"
  have l: "length ?oct \<le> 3"
    by (rule order_trans[OF length_takeWhile_le]) simp
  have all: "\<forall>x \<in> set ?oct. is_octal x"
    by (auto dest: set_takeWhileD)
  show ?thesis
  proof (cases "length ?oct = 3")
    case True
    then show ?thesis using all by (simp add: takeWhile_eq_all_conv[THEN iffD2])
  next
    case False
    with l have lt: "length ?oct < 3" by simp
    have stop: "out = [] \<or> \<not> is_octal (hd out)"
    proof (cases "dropWhile is_octal (take 3 u)")
      case Nil
      then have "\<forall>x \<in> set (take 3 u). is_octal x" by (simp only: dropWhile_eq_Nil_conv)
      then have e: "?oct = take 3 u" by (simp only: takeWhile_eq_all_conv)
      then have "length (take 3 u) < 3" using lt by (simp only:)
      then have "length u < 3" by simp
      then have "length (take 3 u) = length u" by simp
      with arg_cong[OF e, of length] have "length ?oct = length u" by (simp only:)
      then have "drop (length ?oct) u = []" by (simp only: drop_all order_refl)
      then show ?thesis using assms by simp
    next
      case (Cons x xs)
      then have nx: "\<not> is_octal x" using hd_dropWhile[of is_octal "take 3 u"] by auto
      have "drop (length ?oct) (take 3 u) = x # xs"
        using Cons by (simp add: dropWhile_eq_drop)
      then have "take 1 (drop (length ?oct) (take 3 u)) = [x]" by simp
      moreover have "take 1 (drop (length ?oct) (take 3 u)) = take 1 (drop (length ?oct) u)"
        using lt by (simp add: drop_take)
      ultimately have "take 1 out = [x]" using assms by simp
      then show ?thesis using nx by (cases out) auto
    qed
    have "takeWhile is_octal (take 3 (?oct @ out)) =
        takeWhile is_octal (?oct @ take (3 - length ?oct) out)"
      using l by simp
    also have "\<dots> = ?oct @ takeWhile is_octal (take (3 - length ?oct) out)"
      using all by (simp add: takeWhile_append2)
    also have "takeWhile is_octal (take (3 - length ?oct) out) = []"
      using stop by (cases out) (auto simp: take_Cons')
    finally show ?thesis by simp
  qed
qed

lemma numeric_alt_SomeE:
  assumes "numeric_alt db is_bytes s = Some (g, oct)"
  obtains (hex) d k r where "s = 92 # d # r" "hexn db is_bytes k r" "g = 92 # d # take k r"
      "oct = None" "\<not> is_octal d"
      "(\<not> is_bytes \<and> d = 85 \<and> k = 8) \<or> (\<not> is_bytes \<and> d = 117 \<and> k = 4) \<or> (d = 120 \<and> k = 2)"
  | (octal) d r where "s = 92 # d # r" "is_octal d"
      "g = 92 # takeWhile is_octal (take 3 (d # r))"
      "oct = Some (takeWhile is_octal (take 3 (d # r)))"
proof (cases s)
  case Nil
  then show ?thesis using assms by (simp add: numeric_alt_def)
next
  case (Cons c t)
  show ?thesis
  proof (cases t)
    case Nil
    then show ?thesis using assms Cons by (simp add: numeric_alt_def)
  next
    case (Cons d r)
    have no: "d = 85 \<or> d = 117 \<or> d = 120 \<Longrightarrow> \<not> is_octal d"
      by (auto simp: is_octal_def)
    from Cons \<open>s = c # t\<close> assms hex[of d r] octal[of d r] no show ?thesis
      by (simp add: numeric_alt_def split: if_splits)
  qed
qed

lemma numeric_alt_stable:
  assumes "numeric_alt db is_bytes s = Some (g, oct)"
    and "take 1 out = take 1 (drop (length g) s)"
  shows "numeric_alt db is_bytes (g @ out) = Some (g, oct)"
  using assms(1)
proof (cases rule: numeric_alt_SomeE)
  case (hex d k r)
  have "hexn db is_bytes k (take k r @ out)" "take k (take k r @ out) = take k r"
    using hexn_append[OF hex(2)] by simp_all
  then show ?thesis using hex by (auto simp: numeric_alt_def)
next
  case (octal d r)
  let ?oct = "takeWhile is_octal (take 3 (d # r))"
  have d: "d \<noteq> 85" "d \<noteq> 117" "d \<noteq> 120" using octal(2) by (auto simp: is_octal_def)
  have o: "?oct = d # tl ?oct" using octal(2) by simp
  have "take 1 out = take 1 (drop (length ?oct) (d # r))"
    using assms(2) octal by simp
  then have st: "takeWhile is_octal (take 3 (?oct @ out)) = ?oct"
    by (rule octal_stable)
  have "numeric_alt db is_bytes (92 # d # (tl ?oct @ out)) =
      Some (92 # takeWhile is_octal (take 3 (d # (tl ?oct @ out))),
            Some (takeWhile is_octal (take 3 (d # (tl ?oct @ out)))))"
    using d octal(2) by (simp add: numeric_alt_def del: takeWhile.simps take_Cons_numeral)
  moreover have "d # (tl ?oct @ out) = ?oct @ out" using o by (metis append_Cons)
  ultimately show ?thesis using st octal by (simp del: takeWhile.simps take_Cons_numeral)
qed

lemma numeric_alt_None_stable:
  assumes "numeric_alt db is_bytes (92 # d # t) = None" "rescan_rel t out"
  shows "numeric_alt db is_bytes (92 # d # out) = None"
proof -
  have "\<not> is_octal d" using assms(1) by (auto simp: numeric_alt_def split: if_splits)
  then show ?thesis using assms(1) hexn_rescan[OF assms(2), of db is_bytes]
    by (simp add: numeric_alt_def split: if_splits)
qed

lemma named_alt_None_stable:
  assumes "named_alt (92 # d # t) = None" "rescan_rel t out"
  shows "named_alt (92 # d # out) = None"
proof (rule ccontr)
  assume "named_alt (92 # d # out) \<noteq> None"
  then have d: "d = 78" and o: "take 1 out = [123]" and m: "125 \<in> set (drop 1 out)"
    by (auto simp: named_alt_def split: if_splits)
  from o assms(2) have t1: "take 1 t = [123]" by (simp add: rescan_rel_def)
  from m have "125 \<in> set out" by (meson in_set_dropD)
  with assms(2) have "125 \<in> set t" by (auto simp: rescan_rel_def)
  with t1 have "125 \<in> set (drop 1 t)" by (cases t) auto
  with d t1 assms(1) show False by (simp add: named_alt_def)
qed

lemma named_alt_stable:
  assumes "named_alt s = Some g"
  shows "named_alt (g @ out) = Some g"
proof -
  let ?name = "takeWhile (\<lambda>x. x \<noteq> 125) (drop 3 s)"
  from assms have g: "g = [92, 78, 123] @ ?name @ [125]"
    by (auto simp: named_alt_def split: if_splits)
  have "takeWhile (\<lambda>x. x \<noteq> 125) (?name @ 125 # out) = ?name"
    by (simp add: takeWhile_tail)
  then show ?thesis by (simp add: named_alt_def g)
qed

text \<open>The class of the last two alternatives: \<open>[NUux]\<close> in \<open>RE_NORM\<close>, \<open>[x]\<close> in \<open>RE_BNORM\<close>.\<close>

definition prefix_class :: "bool \<Rightarrow> nat \<Rightarrow> bool" where
  "prefix_class is_bytes d = (if is_bytes then d = 120 else is_prefix_char d)"

lemma pat_SomeE:
  assumes "pat db is_bytes pos s = Some m"
  obtains (slash) "slash_alt s = Some (group0 m)" "groups m 1 = Some (group0 m)"
  | (standard) "slash_alt s = None" "standard_alt s = Some (group0 m)"
      "groups m 1 = None" "groups m 2 = Some (group0 m)"
  | (numeric) oct where "slash_alt s = None" "standard_alt s = None"
      "numeric_alt db is_bytes s = Some (group0 m, oct)" "groups m 1 = None" "groups m 2 = None"
  | (named) "\<not> is_bytes" "slash_alt s = None" "standard_alt s = None"
      "numeric_alt db is_bytes s = None" "named_alt s = Some (group0 m)"
      "groups m 1 = None" "groups m 2 = None"
  | (other) "slash_alt s = None" "standard_alt s = None" "numeric_alt db is_bytes s = None"
      "is_bytes \<or> named_alt s = None" "other_alt (prefix_class is_bytes) s = Some (group0 m)"
      "groups m 1 = None" "groups m 2 = None"
  | (prefix) "slash_alt s = None" "standard_alt s = None" "numeric_alt db is_bytes s = None"
      "is_bytes \<or> named_alt s = None" "other_alt (prefix_class is_bytes) s = None"
      "prefix_alt (prefix_class is_bytes) s = Some (group0 m)"
      "groups m 1 = None" "groups m 2 = None"
proof (cases is_bytes)
  case True
  have c: "prefix_class True = (\<lambda>d. d = 120)" by (simp add: prefix_class_def fun_eq_iff)
  from assms True have "RE_BNORM db pos s = Some m" by (simp add: pat_def)
  then show ?thesis
    using True slash standard numeric other prefix unfolding RE_BNORM_def
    by (auto simp: c split: option.splits prod.splits)
next
  case False
  have c: "prefix_class False = is_prefix_char" by (simp add: prefix_class_def fun_eq_iff)
  from assms False have "RE_NORM db pos s = Some m" by (simp add: pat_def)
  then show ?thesis
    using False slash standard numeric named other prefix unfolding RE_NORM_def
    by (auto simp: c split: option.splits prod.splits)
qed

lemma slash_alt_NoneD: "slash_alt (92 # d # t) = None \<Longrightarrow> d \<noteq> 47"
  by (auto simp: slash_alt_def)

lemma standard_alt_NoneD: "standard_alt (92 # d # t) = None \<Longrightarrow> \<not> is_standard d"
  by (auto simp: standard_alt_def)

lemma slash_alt_SomeD: "slash_alt s = Some g \<Longrightarrow> g = [47] \<or> g = [92, 47]"
  by (auto simp: slash_alt_def split: if_splits)

lemma standard_alt_SomeD:
  "standard_alt s = Some g \<Longrightarrow> \<exists>d t. s = 92 # d # t \<and> g = [92, d] \<and> is_standard d"
  by (auto simp: standard_alt_def split: list.splits if_splits)

lemma other_alt_SomeD:
  "other_alt cls s = Some g \<Longrightarrow> \<exists>d t. s = 92 # d # t \<and> g = [92, d] \<and> \<not> cls d"
  by (auto simp: other_alt_def split: list.splits if_splits)

lemma prefix_alt_SomeD:
  "prefix_alt cls s = Some g \<Longrightarrow> \<exists>d t. s = 92 # d # t \<and> g = [92, d] \<and> cls d"
  by (auto simp: prefix_alt_def split: list.splits if_splits)

lemma named_alt_SomeD:
  "named_alt s = Some g \<Longrightarrow> \<exists>t. g = 92 # 78 # 123 # t"
  by (auto simp: named_alt_def split: if_splits)

lemma numeric_alt_78: "numeric_alt db is_bytes (92 # 78 # t) = None"
  by (simp add: numeric_alt_def is_octal_def)

text \<open>
  A token stays the token it was when the text behind it is replaced by its scan.
\<close>

lemma token_stable:
  assumes m: "pat db is_bytes pos s = Some m"
    and r: "rescan_rel (drop (length (group0 m)) s) out"
  shows "\<exists>m'. pat db is_bytes pos' (group0 m @ out) = Some m' \<and> group0 m' = group0 m"
  using m
proof (cases rule: pat_SomeE)
  case slash
  from slash_alt_SomeD[OF slash(1)] show ?thesis
    by (auto simp: pat_slash pat_escaped_slash)
next
  case standard
  from standard_alt_SomeD[OF standard(2)] show ?thesis
    by (auto simp: pat_standard)
next
  case (numeric oct)
  have t1: "take 1 out = take 1 (drop (length (group0 m)) s)"
    using r by (simp add: rescan_rel_def)
  have st: "numeric_alt db is_bytes (group0 m @ out) = Some (group0 m, oct)"
    by (rule numeric_alt_stable[OF numeric(3) t1])
  from numeric(3) obtain d r' g' where s: "s = 92 # d # r'" and g: "group0 m = 92 # d # g'"
    by (cases rule: numeric_alt_SomeE) (auto simp: is_octal_def)
  have d: "d \<noteq> 47" "\<not> is_standard d"
    using numeric(1,2) s by (auto dest: slash_alt_NoneD standard_alt_NoneD)
  from pat_numeric[OF d, of db is_bytes "g' @ out" "group0 m" oct pos'] st g
  show ?thesis by simp
next
  case named
  from named_alt_SomeD[OF named(5)] obtain t where g: "group0 m = 92 # 78 # 123 # t" by blast
  have "named_alt (group0 m @ out) = Some (group0 m)"
    by (rule named_alt_stable[OF named(5)])
  with pat_named[of db "123 # t @ out" "group0 m" pos'] g named(1)
  show ?thesis by (simp add: numeric_alt_78)
next
  case other
  from other_alt_SomeD[OF other(5)] obtain d t where
    s: "s = 92 # d # t" and g: "group0 m = [92, d]" and c: "\<not> prefix_class is_bytes d"
    by blast
  have d: "d \<noteq> 47" "\<not> is_standard d"
    using other(1,2) s by (auto dest: slash_alt_NoneD standard_alt_NoneD)
  have rr: "rescan_rel t out" using r s g by simp
  have n: "numeric_alt db is_bytes (92 # d # out) = None"
    using numeric_alt_None_stable[OF _ rr] other(3) s by simp
  show ?thesis
  proof (cases is_bytes)
    case True
    with c have "d \<noteq> 120" by (simp add: prefix_class_def)
    with bpat_other[OF d, of db out pos'] n True g show ?thesis by simp
  next
    case False
    with c have "\<not> is_prefix_char d" by (simp add: prefix_class_def)
    with pat_other[OF d, of db out pos'] n False g show ?thesis by simp
  qed
next
  case prefix
  from prefix_alt_SomeD[OF prefix(6)] obtain d t where
    s: "s = 92 # d # t" and g: "group0 m = [92, d]" and c: "prefix_class is_bytes d"
    by blast
  have rr: "rescan_rel t out" using r s g by simp
  have n: "numeric_alt db is_bytes (92 # d # out) = None"
    using numeric_alt_None_stable[OF _ rr] prefix(3) s by simp
  show ?thesis
  proof (cases is_bytes)
    case True
    with c have "d = 120" by (simp add: prefix_class_def)
    with bpat_prefix_only[of db out pos'] n True g show ?thesis by simp
  next
    case False
    with c have p: "is_prefix_char d" by (simp add: prefix_class_def)
    have "named_alt (92 # d # out) = None"
      using named_alt_None_stable[OF _ rr] prefix(4) False s by simp
    with pat_prefix_only[OF p, of db out pos'] n False g show ?thesis by simp
  qed
qed

lemma pat_NoneD:
  assumes "pat db is_bytes pos (c # t) = None"
  shows "c \<noteq> 47 \<and> (c \<noteq> 92 \<or> t = [])"
proof (intro conjI)
  show "c \<noteq> 47" using assms by (auto simp: pat_slash)
  show "c \<noteq> 92 \<or> t = []"
  proof (rule ccontr)
    assume "\<not> (c \<noteq> 92 \<or> t = [])"
    then obtain d r where "c = 92" "t = d # r" by (cases t) auto
    then show False using assms
      by (cases is_bytes)
         (auto simp: pat_def RE_NORM_def RE_BNORM_def other_alt_def prefix_alt_def
            split: option.splits prod.splits if_splits)
  qed
qed

lemma emit_InrD: "emit char rest = Inr out \<Longrightarrow> \<exists>out'. rest = Inr out' \<and> out = char @ out'"
  by (cases rest) auto

lemma not_escaped_slash:
  assumes "slash_alt s = None" "take (length g) s = g"
  shows "g \<noteq> [92, 47]"
proof
  assume "g = [92, 47]"
  with assms(2) have "take 2 s = [92, 47]" by (simp add: numeral_2_eq_2)
  with assms(1) show False by (simp add: slash_alt_def split: if_splits)
qed

lemma norm_raw_off:
  "norm db is_bytes n False False m =
     Inr (if truthy (groups m 1)
          then (if n \<and> length (text_of (groups m 1)) > 1 then [92, 92, 92, 92]
                else text_of (groups m 1))
          else if truthy (groups m 2) then text_of (groups m 2)
          else group0 m)"
  by (simp add: norm_def group_def Let_def replicate4)

lemma norm_pat_raw_off:
  assumes "pat db is_bytes pos s = Some m"
  shows "norm db is_bytes n False False m =
           Inr (if n \<and> group0 m = [92, 47] then [92, 92, 92, 92] else group0 m)"
proof -
  note pre = pat_prefix[OF assms]
  from assms show ?thesis
  proof (cases rule: pat_SomeE)
    case slash
    from slash_alt_SomeD[OF slash(1)] slash(2) show ?thesis
      by (auto simp: norm_raw_off truthy_def text_of_def)
  next
    case standard
    from standard(1) pre have "group0 m \<noteq> [92, 47]" by (simp add: not_escaped_slash)
    with standard pre show ?thesis
      by (simp add: norm_raw_off truthy_def text_of_def)
  next
    case (numeric oct)
    from numeric(1) pre have "group0 m \<noteq> [92, 47]" by (simp add: not_escaped_slash)
    with numeric show ?thesis
      by (simp add: norm_raw_off truthy_def text_of_def)
  next
    case named
    from named(2) pre have "group0 m \<noteq> [92, 47]" by (simp add: not_escaped_slash)
    with named show ?thesis
      by (simp add: norm_raw_off truthy_def text_of_def)
  next
    case other
    from other(1) pre have "group0 m \<noteq> [92, 47]" by (simp add: not_escaped_slash)
    with other show ?thesis
      by (simp add: norm_raw_off truthy_def text_of_def)
  next
    case prefix
    from prefix(1) pre have "group0 m \<noteq> [92, 47]" by (simp add: not_escaped_slash)
    with prefix show ?thesis
      by (simp add: norm_raw_off truthy_def text_of_def)
  qed
qed

lemma sub_match:
  assumes "pat db is_bytes pos s = Some m" "repl m = Inr char"
  shows "sub db is_bytes repl pos s =
           emit char (sub db is_bytes repl (pos + length (group0 m)) (drop (length (group0 m)) s))"
proof (cases s)
  case Nil
  with assms(1) pat_length[OF assms(1)] show ?thesis by simp
next
  case (Cons c t)
  with assms show ?thesis by (simp add: sub_Some)
qed

lemma rescan_rel_Nil [simp]: "rescan_rel [] []"
  by (simp add: rescan_rel_def)

lemma rescan_rel_Cons: "rescan_rel t out \<Longrightarrow> rescan_rel (c # t) (c # out)"
  by (auto simp: rescan_rel_def)

lemma takeWhile_append_cong:
  "takeWhile P a = takeWhile P b \<Longrightarrow> takeWhile P (g @ a) = takeWhile P (g @ b)"
  by (induction g) simp_all

lemma rescan_rel_append:
  assumes "rescan_rel t out" "g \<noteq> []"
  shows "rescan_rel (g @ t) (g @ out)"
proof -
  from assms(2) obtain c g' where "g = c # g'" by (cases g) auto
  then show ?thesis using assms(1) takeWhile_append_cong[of "\<lambda>c. c \<noteq> 92" out t g]
    by (auto simp: rescan_rel_def)
qed

lemma rescan_rel_escaped_slash:
  "rescan_rel t out \<Longrightarrow> rescan_rel (92 # 47 # t) (92 # 92 # 92 # 92 # out)"
  by (auto simp: rescan_rel_def)

lemma rescan:
  assumes "repl = norm db is_bytes n False False" "sub db is_bytes repl pos s = Inr out"
  shows "rescan_rel s out \<and> (\<forall>pos'. sub db is_bytes repl pos' out = Inr out)"
  using assms
proof (induction db is_bytes repl pos s arbitrary: out rule: sub.induct)
  case (1 db is_bytes repl pos s)
  note repl = "1.prems"(1)
  show ?case
  proof (cases s)
    case Nil
    with "1.prems"(2) show ?thesis by simp
  next
    case (Cons c t)
    show ?thesis
    proof (cases "pat db is_bytes pos s")
      case None
      with Cons "1.prems"(2) have "emit [c] (sub db is_bytes repl (Suc pos) t) = Inr out"
        by (simp add: sub_None)
      then obtain out' where t: "sub db is_bytes repl (Suc pos) t = Inr out'"
        and out: "out = c # out'" by (auto dest: emit_InrD)
      from "1.IH"(1)[OF Cons None repl t]
      have rr: "rescan_rel t out'" and idem: "\<And>pos'. sub db is_bytes repl pos' out' = Inr out'"
        by simp_all
      from None Cons have c: "c \<noteq> 47" "c \<noteq> 92 \<or> t = []"
        using pat_NoneD[of db is_bytes pos c t] by simp_all
      have nomatch: "pat db is_bytes pos' (c # out') = None" for pos'
      proof (cases "c = 92")
        case True
        with c have "t = []" by simp
        with rr have "out' = []" by (simp add: rescan_rel_def)
        with True show ?thesis by (simp add: pat_lone)
      next
        case False
        with c show ?thesis by (simp add: pat_plain)
      qed
      have "sub db is_bytes repl pos' out = Inr out" for pos'
        using nomatch[of pos'] idem[of "Suc pos'"] out by (simp add: sub_None)
      moreover have "rescan_rel s out" using rr Cons out by (simp add: rescan_rel_Cons)
      ultimately show ?thesis by simp
    next
      case (Some m)
      let ?g = "group0 m"
      let ?rest = "drop (length ?g) s"
      have char: "repl m = Inr (if n \<and> ?g = [92, 47] then [92, 92, 92, 92] else ?g)"
        using norm_pat_raw_off[OF Some] repl by simp
      from pat_prefix[OF Some] have ne: "?g \<noteq> []" and s: "s = ?g @ ?rest"
        by (simp_all, metis append_take_drop_id)
      have "emit (if n \<and> ?g = [92, 47] then [92, 92, 92, 92] else ?g)
              (sub db is_bytes repl (pos + length ?g) ?rest) = Inr out"
        using sub_match[of db is_bytes pos s m repl, OF Some char] "1.prems"(2) by simp
      from emit_InrD[OF this] obtain out' where
        t: "sub db is_bytes repl (pos + length ?g) ?rest = Inr out'"
        and out: "out = (if n \<and> ?g = [92, 47] then [92, 92, 92, 92] else ?g) @ out'"
        by blast
      from "1.IH"(2)[OF Cons Some char repl t]
      have rr: "rescan_rel ?rest out'" and idem: "\<And>pos'. sub db is_bytes repl pos' out' = Inr out'"
        by simp_all
      show ?thesis
      proof (cases "n \<and> ?g = [92, 47]")
        case True
        then have o: "out = 92 # 92 # 92 # 92 # out'" using out by simp
        have "sub db is_bytes repl pos' out = Inr out" for pos'
          using idem[of "Suc (Suc (Suc (Suc pos')))"] o repl
          by (simp add: step_standard is_standard_def)
        moreover have "rescan_rel s out"
          using rescan_rel_escaped_slash[OF rr] s True o by simp
        ultimately show ?thesis by simp
      next
        case False
        then have o: "out = ?g @ out'" using out by simp
        have "sub db is_bytes repl pos' out = Inr out" for pos'
        proof -
          from token_stable[OF Some rr, of pos'] obtain m' where
            m': "pat db is_bytes pos' (?g @ out') = Some m'" and g': "group0 m' = ?g" by blast
          have "repl m' = Inr ?g"
            using norm_pat_raw_off[OF m', of n] repl False g' by simp
          from sub_match[of db is_bytes pos' "?g @ out'" m' repl, OF m' this]
            idem[of "pos' + length ?g"] g' o
          show ?thesis by simp
        qed
        moreover have "rescan_rel s out"
          using rescan_rel_append[OF rr ne] s o by simp
        ultimately show ?thesis by simp
      qed
    qed
  qed
qed

lemma units_to_pattern_bytes:
  assumes "\<forall>x \<in> set out. x < 256"
  shows "units (to_pattern True out) = out"
proof -
  have "unat (of_nat x :: 8 word) = x" if "x \<in> set out" for x
    using assms that by (simp add: unat_of_nat)
  then have "map (\<lambda>x. unat (of_nat x :: 8 word)) out = out"
    by (simp add: map_idI)
  then show ?thesis by (simp add: to_pattern_def comp_def)
qed

lemma units_bytes_bound: "\<forall>x \<in> set (units (Bytes b)). x < 256"
proof
  fix x assume "x \<in> set (units (Bytes b))"
  then obtain w :: "8 word" where "x = unat w" by auto
  moreover have "unat w < 2 ^ LENGTH(8)" by (rule unsigned_less)
  ultimately show "x < 256" by simp
qed

section \<open>The states of a scan\<close>

text \<open>
  \<open>reaches db is_bytes repl (pos0, s0) out (pos, s)\<close>: the scan that started at offset
  \<open>pos0\<close> with \<open>s0\<close> to read stands, some steps later and with no exception so far, at
  offset \<open>pos\<close> with \<open>s\<close> to read, having produced \<open>out\<close>. A step copies one unit where
  the expression does not match, or emits the replacement of a match and moves behind it.
\<close>

inductive reaches ::
  "unicodedata \<Rightarrow> bool \<Rightarrow> (rmatch \<Rightarrow> error + nat list) \<Rightarrow> nat \<times> nat list \<Rightarrow> nat list
     \<Rightarrow> nat \<times> nat list \<Rightarrow> bool"
  for db is_bytes repl st where
    here: "reaches db is_bytes repl st [] st"
  | copied:
      "reaches db is_bytes repl st out (pos, c # t) \<Longrightarrow> pat db is_bytes pos (c # t) = None \<Longrightarrow>
       reaches db is_bytes repl st (out @ [c]) (Suc pos, t)"
  | replaced:
      "reaches db is_bytes repl st out (pos, s) \<Longrightarrow> pat db is_bytes pos s = Some m \<Longrightarrow>
       repl m = Inr char \<Longrightarrow>
       reaches db is_bytes repl st (out @ char) (pos + length (group0 m), drop (length (group0 m)) s)"

lemma reaches_sub:
  "reaches db is_bytes repl st out st' \<Longrightarrow>
   sub db is_bytes repl (fst st) (snd st) = emit out (sub db is_bytes repl (fst st') (snd st'))"
proof (induction rule: reaches.induct)
  case here
  then show ?case by simp
next
  case (copied out pos c t)
  then show ?case by (simp add: sub_None)
next
  case (replaced out pos s m char)
  then show ?case
    using sub_match[of db is_bytes pos s m repl char] by simp
qed

lemma reaches_replaced:
  "reaches db is_bytes repl st out (pos, s) \<Longrightarrow> pat db is_bytes pos s = Some m \<Longrightarrow>
   repl m = Inr char \<Longrightarrow> out' = out @ char \<Longrightarrow> pos' = pos + length (group0 m) \<Longrightarrow>
   s' = drop (length (group0 m)) s \<Longrightarrow> reaches db is_bytes repl st out' (pos', s')"
  by (simp add: reaches.replaced)

lemma reaches_plain:
  assumes "reaches db is_bytes repl st out (pos, pre @ s)" "92 \<notin> set pre" "47 \<notin> set pre"
  shows "reaches db is_bytes repl st (out @ pre) (pos + length pre, s)"
  using assms
proof (induction pre arbitrary: out pos)
  case Nil
  then show ?case by simp
next
  case (Cons c pre)
  then have "pat db is_bytes pos (c # pre @ s) = None" by (simp add: pat_plain)
  with Cons.prems(1) have "reaches db is_bytes repl st (out @ [c]) (Suc pos, pre @ s)"
    by (simp add: reaches.copied)
  from Cons.IH[OF this] Cons.prems show ?case by simp
qed

lemma reaches_plain_eq:
  "reaches db is_bytes repl st out (pos, pre @ s) \<Longrightarrow> 92 \<notin> set pre \<Longrightarrow> 47 \<notin> set pre \<Longrightarrow>
   out' = out @ pre \<Longrightarrow> pos' = pos + length pre \<Longrightarrow>
   reaches db is_bytes repl st out' (pos', s)"
  by (simp add: reaches_plain)

lemma step_prefix_raw_off:
  assumes "lacks_suffix db is_bytes c t"
  shows "sub db is_bytes (norm db is_bytes n False ig) pos (92 # c # t) =
           emit (if ig then [92, 92, c] else [92, c])
             (sub db is_bytes (norm db is_bytes n False ig) (Suc (Suc pos)) t)"
proof (cases is_bytes)
  case True
  with assms have c: "c = 120" by (simp add: lacks_suffix_bytes)
  have "pat db True pos (92 # 120 # t) =
      Some \<lparr>start = pos, group0 = [92, 120], groups = [6 \<mapsto> [92, 120]]\<rparr>"
    using lacks_suffix_numeric[OF assms] True c by (simp add: bpat_prefix_only)
  then show ?thesis using True c
    by (subst sub.simps) (simp add: norm_eval)
next
  case False
  with assms have a: "lacks_suffix db False c t" by simp
  have "pat db False pos (92 # c # t) =
      Some \<lparr>start = pos, group0 = [92, c], groups = [7 \<mapsto> [92, c]]\<rparr>"
    using lacks_suffix_prefix_char[OF a] lacks_suffix_numeric[OF a] lacks_suffix_named[OF a]
    by (rule pat_prefix_only)
  then show ?thesis using False
    by (subst sub.simps) (simp add: norm_eval)
qed

text \<open>
  C2, as the code has it. With \<open>is_raw_chars\<close> set: when the scan of a pattern, of
  either alphabet, comes without an exception to an offset where a recognized escape
  prefix stands that lacks its suffix, \<open>norm_pattern\<close> raises the \<open>SyntaxError\<close> that
  carries the prefix itself, two units, and that offset; whatever was scanned before,
  escapes too. In a str pattern the prefixes are \<open>\x\<close>, \<open>\u\<close>, \<open>\U\<close> and \<open>\N\<close>, in a
  bytes pattern \<open>\x\<close> alone. With \<open>is_raw_chars\<close> unset such a prefix is passed through,
  behind one more backslash when \<open>ignore_escape\<close> is set, the scan goes on behind it,
  and \<open>norm_pattern\<close> returns a pattern.
\<close>

theorem malformed_escape_raises:
  "(reaches db (isinstance_bytes p) (norm db (isinstance_bytes p) n True ig) (0, units p) out
        (k, 92 # c # t)
      \<and> lacks_suffix db (isinstance_bytes p) c t \<longrightarrow>
      norm_pattern db p n True ig =
        Inl (SyntaxError (to_pattern (isinstance_bytes p) [92, c]) k))
   \<and> (lacks_suffix db is_bytes c t \<longrightarrow>
      sub db is_bytes (norm db is_bytes n False ig) pos (92 # c # t) =
        emit (if ig then [92, 92, c] else [92, c])
          (sub db is_bytes (norm db is_bytes n False ig) (pos + 2) t))
   \<and> (\<exists>q. norm_pattern db p n False ig = Inr q)"
proof (intro conjI impI)
  let ?b = "isinstance_bytes p"
  assume a: "reaches db ?b (norm db ?b n True ig) (0, units p) out (k, 92 # c # t)
      \<and> lacks_suffix db ?b c t"
  then have "sub db ?b (norm db ?b n True ig) 0 (units p) =
      emit out (sub db ?b (norm db ?b n True ig) k (92 # c # t))"
    using reaches_sub[of db ?b "norm db ?b n True ig" "(0, units p)" out "(k, 92 # c # t)"]
    by simp
  also have "\<dots> = Inl (SyntaxError (to_pattern ?b [92, c]) k)"
    using a by (simp add: step_malformed)
  finally show "norm_pattern db p n True ig = Inl (SyntaxError (to_pattern ?b [92, c]) k)"
    by (simp add: norm_pattern_eq)
next
  assume "lacks_suffix db is_bytes c t"
  then show "sub db is_bytes (norm db is_bytes n False ig) pos (92 # c # t) =
        emit (if ig then [92, 92, c] else [92, c])
          (sub db is_bytes (norm db is_bytes n False ig) (pos + 2) t)"
    by (simp add: step_prefix_raw_off)
next
  obtain res where
    "sub db (isinstance_bytes p) (norm db (isinstance_bytes p) n False ig) 0 (units p) = Inr res"
    using sub_total_not_raw[OF refl] by blast
  then show "\<exists>q. norm_pattern db p n False ig = Inr q"
    by (simp add: norm_pattern_eq Let_def)
qed

text \<open>
  The str patterns \<open>\*\x\<close> and \<open>foo\nbar\u12\<close>, and the bytes pattern \<open>a\x4\<close>.
\<close>

theorem malformed_escape_raises_witness:
  "norm_pattern ascii_db (Str [92, 42, 92, 120]) False True False =
     Inl (SyntaxError (Str [92, 120]) 2)
   \<and> norm_pattern ascii_db (Str [102, 111, 111, 92, 110, 98, 97, 114, 92, 117, 49, 50])
       False True False = Inl (SyntaxError (Str [92, 117]) 8)
   \<and> norm_pattern ascii_db (Bytes [97, 92, 120, 52]) True True False =
     Inl (SyntaxError (Bytes [92, 120]) 1)"
proof -
  let ?r = "norm ascii_db False False True False"
  have a: "reaches ascii_db False ?r (0, [92, 42, 92, 120]) [92, 42] (2, [92, 120])"
    by (rule reaches_replaced[OF reaches.here,
          where m = "\<lparr>start = 0, group0 = [92, 42], groups = [6 \<mapsto> [92, 42]]\<rparr>"
            and char = "[92, 42]"])
       (simp_all add: scan_eval)
  let ?s = "[102, 111, 111] @ [92, 110, 98, 97, 114, 92, 117, 49, 50]"
  have "reaches ascii_db False ?r (0, ?s) [102, 111, 111]
      (3, [92, 110, 98, 97, 114, 92, 117, 49, 50])"
    by (rule reaches_plain_eq[OF reaches.here, where pre = "[102, 111, 111]"]) simp_all
  then have "reaches ascii_db False ?r (0, ?s) [102, 111, 111, 10]
      (5, [98, 97, 114] @ [92, 117, 49, 50])"
    by (rule reaches_replaced[
          where m = "\<lparr>start = 3, group0 = [92, 110], groups = [2 \<mapsto> [92, 110]]\<rparr>"
            and char = "[10]"])
       (simp_all add: scan_eval)
  then have b: "reaches ascii_db False ?r (0, ?s) [102, 111, 111, 10, 98, 97, 114]
      (8, [92, 117, 49, 50])"
    by (rule reaches_plain_eq) simp_all
  let ?rb = "norm ascii_db True True True False"
  have c: "reaches ascii_db True ?rb (0, [97] @ [92, 120, 52]) [97] (1, [92, 120, 52])"
    by (rule reaches_plain_eq[OF reaches.here, where pre = "[97]"]) simp_all
  show ?thesis
    using a b c
      malformed_escape_raises[where db = ascii_db and p = "Str [92, 42, 92, 120]"
        and n = False and ig = False and out = "[92, 42]" and k = 2 and c = 120 and t = "[]"]
      malformed_escape_raises[where db = ascii_db and p = "Str ?s"
        and n = False and ig = False and out = "[102, 111, 111, 10, 98, 97, 114]" and k = 8
        and c = 117 and t = "[49, 50]"]
      malformed_escape_raises[where db = ascii_db and p = "Bytes [97, 92, 120, 52]"
        and n = True and ig = False and out = "[97]" and k = 1 and c = 120 and t = "[52]"]
    by (simp add: lacks_suffix_def hexn_def to_pattern_def)
qed

text \<open>
  For the str pattern \<open>\u12\<close> the error carries \<open>\u\<close>, the text of group 7, and not
  \<open>\u12\<close>; and with \<open>is_raw_chars\<close> unset the same pattern is returned, not refused.
\<close>

theorem malformed_escape_counterexample:
  "norm_pattern ascii_db (Str [92, 117, 49, 50]) False True False =
     Inl (SyntaxError (Str [92, 117]) 0)
   \<and> norm_pattern ascii_db (Str [92, 117, 49, 50]) False True False \<noteq>
     Inl (SyntaxError (Str [92, 117, 49, 50]) 0)
   \<and> norm_pattern ascii_db (Str [92, 117, 49, 50]) True False False =
     Inr (Str [92, 117, 49, 50])"
  by (simp add: scan_eval)

section \<open>Scanning the output of a decoding scan\<close>

lemma pat_matchE:
  assumes "pat db is_bytes pos s = Some m"
  obtains (slash) g where "slash_alt s = Some g"
      "m = \<lparr>start = pos, group0 = g, groups = [1 \<mapsto> g]\<rparr>"
  | (standard) g where "slash_alt s = None" "standard_alt s = Some g"
      "m = \<lparr>start = pos, group0 = g, groups = [2 \<mapsto> g]\<rparr>"
  | (hex) g where "slash_alt s = None" "standard_alt s = None"
      "numeric_alt db is_bytes s = Some (g, None)"
      "m = \<lparr>start = pos, group0 = g, groups = [3 \<mapsto> g]\<rparr>"
  | (octal) g oct where "slash_alt s = None" "standard_alt s = None"
      "numeric_alt db is_bytes s = Some (g, Some oct)"
      "m = \<lparr>start = pos, group0 = g, groups = [3 \<mapsto> g, 4 \<mapsto> oct]\<rparr>"
  | (named) g where "\<not> is_bytes" "slash_alt s = None" "standard_alt s = None"
      "numeric_alt db is_bytes s = None" "named_alt s = Some g"
      "m = \<lparr>start = pos, group0 = g, groups = [5 \<mapsto> g]\<rparr>"
  | (other) g where "slash_alt s = None" "standard_alt s = None"
      "numeric_alt db is_bytes s = None" "other_alt (prefix_class is_bytes) s = Some g"
      "m = \<lparr>start = pos, group0 = g, groups = [(if is_bytes then 5 else 6) \<mapsto> g]\<rparr>"
  | (prefix) g where "slash_alt s = None" "standard_alt s = None"
      "numeric_alt db is_bytes s = None" "prefix_alt (prefix_class is_bytes) s = Some g"
      "m = \<lparr>start = pos, group0 = g, groups = [(if is_bytes then 6 else 7) \<mapsto> g]\<rparr>"
proof (cases is_bytes)
  case True
  have c: "prefix_class True = (\<lambda>d. d = 120)" by (simp add: prefix_class_def fun_eq_iff)
  from assms True have "RE_BNORM db pos s = Some m" by (simp add: pat_def)
  then show ?thesis
    using True slash standard hex octal other prefix unfolding RE_BNORM_def
    by (auto simp: c split: option.splits prod.splits)
next
  case False
  have c: "prefix_class False = is_prefix_char" by (simp add: prefix_class_def fun_eq_iff)
  from assms False have "RE_NORM db pos s = Some m" by (simp add: pat_def)
  then show ?thesis
    using False slash standard hex octal named other prefix unfolding RE_NORM_def
    by (auto simp: c split: option.splits prod.splits)
qed

text \<open>
  The matches that \<open>norm\<close>, with \<open>is_raw_chars\<close> set, answers with decoded characters:
  those of its third, fourth and fifth branch.
\<close>

definition decodes :: "bool \<Rightarrow> rmatch \<Rightarrow> bool" where
  "decodes is_bytes m =
     (\<not> truthy (group m 1) \<and> \<not> truthy (group m 2)
      \<and> (truthy (group m 4) \<or> truthy (group m 3) \<or> (\<not> is_bytes \<and> truthy (group m 5))))"

text \<open>
  No escape that the scan decodes yields a backslash: the scan of \<open>sub\<close>, with the
  replacement of each decoding match looked at.
\<close>

function no_new_backslash ::
  "unicodedata \<Rightarrow> bool \<Rightarrow> (rmatch \<Rightarrow> error + nat list) \<Rightarrow> nat \<Rightarrow> nat list \<Rightarrow> bool" where
  "no_new_backslash db is_bytes repl pos s =
     (case s of
        [] \<Rightarrow> True
      | c # t \<Rightarrow>
          (case pat db is_bytes pos s of
             None \<Rightarrow> no_new_backslash db is_bytes repl (Suc pos) t
           | Some m \<Rightarrow>
               (case repl m of
                  Inl e \<Rightarrow> True
                | Inr char \<Rightarrow>
                    (if decodes is_bytes m then 92 \<notin> set char else True)
                    \<and> no_new_backslash db is_bytes repl (pos + length (group0 m))
                          (drop (length (group0 m)) s))))"
  by pat_completeness auto
termination
  by (relation "measure (\<lambda>(db, is_bytes, repl, pos, s). length s)")
     (auto dest: pat_length)

declare no_new_backslash.simps [simp del]

lemma no_new_backslash_None:
  "pat db is_bytes pos (c # t) = None \<Longrightarrow>
   no_new_backslash db is_bytes repl pos (c # t) = no_new_backslash db is_bytes repl (Suc pos) t"
  by (subst no_new_backslash.simps) simp

lemma no_new_backslash_Some:
  "pat db is_bytes pos (c # t) = Some m \<Longrightarrow> repl m = Inr char \<Longrightarrow>
   no_new_backslash db is_bytes repl pos (c # t) =
     ((decodes is_bytes m \<longrightarrow> 92 \<notin> set char)
      \<and> no_new_backslash db is_bytes repl (pos + length (group0 m))
            (drop (length (group0 m)) (c # t)))"
  by (subst no_new_backslash.simps) simp

lemma numeric_alt_None_any:
  assumes "numeric_alt db is_bytes (92 # d # t) = None" "\<not> prefix_class is_bytes d"
  shows "numeric_alt db is_bytes (92 # d # u) = None"
proof -
  have "\<not> is_octal d" using assms(1) by (auto simp: numeric_alt_def split: if_splits)
  moreover have "d \<noteq> 120" using assms(2)
    by (cases is_bytes) (auto simp: prefix_class_def is_prefix_char_def)
  moreover have "is_bytes \<or> (d \<noteq> 85 \<and> d \<noteq> 117)" using assms(2)
    by (cases is_bytes) (auto simp: prefix_class_def is_prefix_char_def)
  ultimately show ?thesis by (auto simp: numeric_alt_def)
qed

text \<open>
  One replacement of a decoding scan, put in front of a text that the scan leaves as it
  is, makes a text that the scan leaves as it is.
\<close>

lemma replacement_fixed:
  assumes m: "pat db is_bytes pos s = Some m"
    and char: "norm db is_bytes n True False m = Inr char"
    and clean: "decodes is_bytes m \<longrightarrow> 92 \<notin> set char"
    and rest: "\<And>pos'. sub db is_bytes (norm db is_bytes n True False) pos' out = Inr out"
  shows "sub db is_bytes (norm db is_bytes n True False) pos' (char @ out) = Inr (char @ out)"
  using m
proof (cases rule: pat_matchE)
  case (slash g)
  from slash_alt_SomeD[OF slash(1)] char slash(2)
  consider "char = [47]" | "\<not> n" "char = [92, 47]" | "char = [92, 92, 92, 92]"
    by (auto simp: norm_eval split: if_splits)
  then show ?thesis
  proof cases
    case 1
    then show ?thesis by (simp add: step_slash rest)
  next
    case 2
    then show ?thesis using rest by (simp add: step_escaped_slash)
  next
    case 3
    then show ?thesis by (simp add: step_standard is_standard_def BACK_SLASH_TRANSLATION_def rest)
  qed
next
  case (standard g)
  from standard_alt_SomeD[OF standard(2)] obtain d where
    g: "g = [92, d]" and d: "is_standard d" by blast
  from char standard(3) g d
  consider x where "char = [x]" "x \<noteq> 47" "x \<noteq> 92" | "char = [92, 92]"
    by (auto simp: norm_eval is_standard_def BACK_SLASH_TRANSLATION_def)
  then show ?thesis
  proof cases
    case 1
    then show ?thesis by (simp add: step_plain rest)
  next
    case 2
    then show ?thesis by (simp add: step_standard is_standard_def BACK_SLASH_TRANSLATION_def rest)
  qed
next
  case (hex g)
  from numeric_alt_prefix[OF hex(3)] have "g \<noteq> []" by simp
  then have "decodes is_bytes m" using hex(4) by (simp add: decodes_def group_def truthy_def)
  with clean have "92 \<notin> set char" by simp
  then show ?thesis using sub_plain_prefix[of char db is_bytes n True False pos' out]
    by (simp add: rest)
next
  case (octal g oct)
  from numeric_alt_prefix[OF octal(3)] have "g \<noteq> []" by simp
  then have "decodes is_bytes m" using octal(4) by (simp add: decodes_def group_def truthy_def)
  with clean have "92 \<notin> set char" by simp
  then show ?thesis using sub_plain_prefix[of char db is_bytes n True False pos' out]
    by (simp add: rest)
next
  case (named g)
  from named_alt_prefix[OF named(5)] have "g \<noteq> []" by simp
  then have "decodes is_bytes m" using named(1,6)
    by (simp add: decodes_def group_def truthy_def)
  with clean have "92 \<notin> set char" by simp
  then show ?thesis using sub_plain_prefix[of char db is_bytes n True False pos' out]
    by (simp add: rest)
next
  case (other g)
  from other_alt_SomeD[OF other(4)] obtain d t where
    s: "s = 92 # d # t" and g: "g = [92, d]" and c: "\<not> prefix_class is_bytes d"
    by blast
  have d: "d \<noteq> 47" "\<not> is_standard d"
    using other(1,2) s by (auto dest: slash_alt_NoneD standard_alt_NoneD)
  have nn: "numeric_alt db is_bytes (92 # d # out) = None"
    using numeric_alt_None_any[OF _ c] other(3) s by simp
  have ch: "char = [92, d]" using char other(5) g by (cases is_bytes) (auto simp: norm_eval)
  have "pat db is_bytes pos' (92 # d # out) =
      Some \<lparr>start = pos', group0 = [92, d], groups = [(if is_bytes then 5 else 6) \<mapsto> [92, d]]\<rparr>"
  proof (cases is_bytes)
    case True
    with c have "d \<noteq> 120" by (simp add: prefix_class_def)
    with bpat_other[OF d, of db out pos'] nn True show ?thesis by simp
  next
    case False
    with c have "\<not> is_prefix_char d" by (simp add: prefix_class_def)
    with pat_other[OF d, of db out pos'] nn False show ?thesis by simp
  qed
  then show ?thesis using ch rest
    by (subst sub.simps) (cases is_bytes; simp add: norm_eval)
next
  case (prefix g)
  from prefix_alt_SomeD[OF prefix(4)] obtain d where g: "g = [92, d]" by blast
  from char prefix(5) g show ?thesis by (cases is_bytes) (auto simp: norm_eval)
qed

lemma rescan_raw:
  assumes "repl = norm db is_bytes n True False" "sub db is_bytes repl pos s = Inr out"
    and "no_new_backslash db is_bytes repl pos s"
  shows "sub db is_bytes repl pos' out = Inr out"
  using assms
proof (induction db is_bytes repl pos s arbitrary: out pos' rule: sub.induct)
  case (1 db is_bytes repl pos s)
  note repl = "1.prems"(1)
  show ?case
  proof (cases s)
    case Nil
    with "1.prems"(2) show ?thesis by simp
  next
    case (Cons c t)
    show ?thesis
    proof (cases "pat db is_bytes pos s")
      case None
      with Cons "1.prems"(2) have "emit [c] (sub db is_bytes repl (Suc pos) t) = Inr out"
        by (simp add: sub_None)
      then obtain out' where t: "sub db is_bytes repl (Suc pos) t = Inr out'"
        and out: "out = c # out'" by (auto dest: emit_InrD)
      have cl: "no_new_backslash db is_bytes repl (Suc pos) t"
        using "1.prems"(3) Cons None by (simp add: no_new_backslash_None)
      have idem: "sub db is_bytes repl p' out' = Inr out'" for p'
        by (rule "1.IH"(1)[OF Cons None repl t cl])
      from None Cons have c: "c \<noteq> 47" "c \<noteq> 92 \<or> t = []"
        using pat_NoneD[of db is_bytes pos c t] by simp_all
      have "pat db is_bytes pos' (c # out') = None"
      proof (cases "c = 92")
        case True
        with c have "t = []" by simp
        with t have "out' = []" by simp
        with True show ?thesis by (simp add: pat_lone)
      next
        case False
        with c show ?thesis by (simp add: pat_plain)
      qed
      then show ?thesis using idem[of "Suc pos'"] out by (simp add: sub_None)
    next
      case (Some m)
      obtain char where char: "repl m = Inr char"
      proof (cases "repl m")
        case (Inl e)
        with Some Cons "1.prems"(2) show ?thesis by (simp add: sub_Error)
      next
        case (Inr x)
        then show ?thesis by (rule that)
      qed
      let ?g = "group0 m"
      let ?rest = "drop (length ?g) s"
      have "emit char (sub db is_bytes repl (pos + length ?g) ?rest) = Inr out"
        using sub_match[of db is_bytes pos s m repl, OF Some char] "1.prems"(2) by simp
      from emit_InrD[OF this] obtain out' where
        t: "sub db is_bytes repl (pos + length ?g) ?rest = Inr out'"
        and out: "out = char @ out'" by blast
      have cl: "(decodes is_bytes m \<longrightarrow> 92 \<notin> set char)
          \<and> no_new_backslash db is_bytes repl (pos + length ?g) ?rest"
        using "1.prems"(3) Cons Some char by (simp add: no_new_backslash_Some)
      have idem: "sub db is_bytes repl p' out' = Inr out'" for p'
        using "1.IH"(2)[OF Cons Some char repl t] cl by simp
      show ?thesis
        using replacement_fixed[OF Some, of n char out' pos'] char cl idem
        unfolding repl out by simp
    qed
  qed
qed

text \<open>A scan of bytes emits bytes.\<close>

lemma replacement_bytes:
  assumes m: "pat db True pos s = Some m"
    and char: "norm db True n r ig m = Inr char"
    and s: "\<forall>x \<in> set s. x < 256"
  shows "\<forall>x \<in> set char. x < 256"
proof -
  from pat_prefix[OF m] have "set (group0 m) \<subseteq> set s"
    by (metis set_take_subset)
  with s have g: "\<forall>x \<in> set (group0 m). x < 256" by auto
  from m show ?thesis
  proof (cases rule: pat_matchE)
    case (slash g')
    with char slash_alt_SomeD[OF slash(1)] show ?thesis
      by (auto simp: norm_eval split: if_splits)
  next
    case (standard g')
    from standard_alt_SomeD[OF standard(2)] obtain d where
      "g' = [92, d]" "is_standard d" by blast
    with char standard(3) g show ?thesis
      by (auto simp: norm_eval is_standard_def BACK_SLASH_TRANSLATION_def split: if_splits)
  next
    case (hex g')
    with char g show ?thesis
      by (auto simp: norm_eval bytes1_def split: if_splits sum.splits)
  next
    case (octal g' oct)
    with char g show ?thesis
      by (auto simp: norm_eval bytes1_def split: if_splits sum.splits)
  next
    case (named g')
    then show ?thesis by simp
  next
    case (other g')
    with char g show ?thesis
      by (auto simp: norm_eval split: if_splits)
  next
    case (prefix g')
    with char g show ?thesis
      by (auto simp: norm_eval split: if_splits)
  qed
qed

lemma scan_bytes:
  assumes "repl = norm db True n r ig" "sub db True repl pos s = Inr out"
    and "\<forall>x \<in> set s. x < 256"
  shows "\<forall>x \<in> set out. x < 256"
  using assms
proof (induction db "True" repl pos s arbitrary: out rule: sub.induct)
  case (1 db repl pos s)
  note repl = "1.prems"(1)
  show ?case
  proof (cases s)
    case Nil
    with "1.prems"(2) show ?thesis by simp
  next
    case (Cons c t)
    show ?thesis
    proof (cases "pat db True pos s")
      case None
      with Cons "1.prems"(2) have "emit [c] (sub db True repl (Suc pos) t) = Inr out"
        by (simp add: sub_None)
      then obtain out' where t: "sub db True repl (Suc pos) t = Inr out'"
        and out: "out = c # out'" by (auto dest: emit_InrD)
      from "1.hyps"(1)[OF Cons None repl t] "1.prems"(3) Cons out show ?thesis by simp
    next
      case (Some m)
      obtain char where char: "repl m = Inr char"
      proof (cases "repl m")
        case (Inl e)
        with Some Cons "1.prems"(2) show ?thesis by (simp add: sub_Error)
      next
        case (Inr x)
        then show ?thesis by (rule that)
      qed
      let ?g = "group0 m"
      let ?rest = "drop (length ?g) s"
      have "emit char (sub db True repl (pos + length ?g) ?rest) = Inr out"
        using sub_match[of db True pos s m repl, OF Some char] "1.prems"(2) by simp
      from emit_InrD[OF this] obtain out' where
        t: "sub db True repl (pos + length ?g) ?rest = Inr out'"
        and out: "out = char @ out'" by blast
      have "\<forall>x \<in> set ?rest. x < 256"
        using "1.prems"(3) by (meson in_set_dropD)
      with "1.hyps"(2)[OF Cons Some char repl t] have "\<forall>x \<in> set out'. x < 256" by simp
      moreover have "\<forall>x \<in> set char. x < 256"
        using replacement_bytes[OF Some _ "1.prems"(3), of n r ig char] char repl by simp
      ultimately show ?thesis using out by auto
    qed
  qed
qed

text \<open>
  A text in which the scan changes nothing: every match is replaced by its own text.
\<close>

function keeps ::
  "unicodedata \<Rightarrow> bool \<Rightarrow> (rmatch \<Rightarrow> error + nat list) \<Rightarrow> nat \<Rightarrow> nat list \<Rightarrow> bool" where
  "keeps db is_bytes repl pos s =
     (case s of
        [] \<Rightarrow> True
      | c # t \<Rightarrow>
          (case pat db is_bytes pos s of
             None \<Rightarrow> keeps db is_bytes repl (Suc pos) t
           | Some m \<Rightarrow>
               repl m = Inr (group0 m)
               \<and> keeps db is_bytes repl (pos + length (group0 m)) (drop (length (group0 m)) s)))"
  by pat_completeness auto
termination
  by (relation "measure (\<lambda>(db, is_bytes, repl, pos, s). length s)")
     (auto dest: pat_length)

declare keeps.simps [simp del]

lemma keeps_sub: "keeps db is_bytes repl pos s \<Longrightarrow> sub db is_bytes repl pos s = Inr s"
proof (induction db is_bytes repl pos s rule: sub.induct)
  case (1 db is_bytes repl pos s)
  show ?case
  proof (cases s)
    case Nil
    then show ?thesis by simp
  next
    case (Cons c t)
    show ?thesis
    proof (cases "pat db is_bytes pos s")
      case None
      with Cons "1.prems" have "keeps db is_bytes repl (Suc pos) t"
        by (subst (asm) keeps.simps) simp
      from "1.IH"(1)[OF Cons None this] Cons None show ?thesis by (simp add: sub_None)
    next
      case (Some m)
      with Cons "1.prems" have r: "repl m = Inr (group0 m)"
        and k: "keeps db is_bytes repl (pos + length (group0 m)) (drop (length (group0 m)) s)"
        by (subst (asm) keeps.simps, simp)+
      from pat_prefix[OF Some] have "group0 m @ drop (length (group0 m)) s = s"
        by (metis append_take_drop_id)
      with "1.IH"(2)[OF Cons Some r k] sub_match[of db is_bytes pos s m repl, OF Some r]
      show ?thesis by simp
    qed
  qed
qed

lemma to_pattern_units: "to_pattern (isinstance_bytes q) (units q) = q"
  by (cases q) (simp_all add: to_pattern_def comp_def)

text \<open>
  C1, as the code has it. A second call of \<open>norm_pattern\<close> with the same flags (and
  \<open>ignore_escape\<close> unset) returns the pattern the first call returned, in either
  alphabet, when \<open>is_raw_chars\<close> is unset; and when it is set, if none of the escapes
  that the first call decoded yielded a backslash, or if the pattern the first call
  returned holds no escape that the scan changes.
\<close>

theorem normalization_idempotent:
  assumes "norm_pattern db p n r False = Inr q"
    and "\<not> r
         \<or> no_new_backslash db (isinstance_bytes p)
              (norm db (isinstance_bytes p) n True False) 0 (units p)
         \<or> keeps db (isinstance_bytes q) (norm db (isinstance_bytes q) n True False) 0 (units q)"
  shows "norm_pattern db q n r False = Inr q"
proof (cases "r \<and> keeps db (isinstance_bytes q) (norm db (isinstance_bytes q) n True False) 0
    (units q)")
  case True
  then have "sub db (isinstance_bytes q) (norm db (isinstance_bytes q) n True False) 0 (units q)
      = Inr (units q)"
    by (simp add: keeps_sub)
  then show ?thesis using True by (simp add: norm_pattern_eq to_pattern_units)
next
  case nk: False
  show ?thesis
  proof (cases "\<not> n \<and> \<not> r")
    case True
    with assms(1) show ?thesis by (simp add: norm_pattern_eq)
  next
    case False
    let ?b = "isinstance_bytes p"
    let ?repl = "norm db ?b n r False"
    from assms(1) False obtain out where
      s: "sub db ?b ?repl 0 (units p) = Inr out" and q: "q = to_pattern ?b out"
      by (auto simp: norm_pattern_eq Let_def split: sum.splits)
    have idem: "sub db ?b ?repl 0 out = Inr out"
    proof (cases r)
      case True
      with assms(2) nk
      have "no_new_backslash db ?b (norm db ?b n True False) 0 (units p)" by blast
      with True s show ?thesis
        using rescan_raw[of "norm db ?b n True False" db ?b n 0 "units p" out 0] by simp
    next
      case r: False
      with s rescan[of "norm db ?b n False False" db ?b n 0 "units p" out] show ?thesis by simp
    qed
    have b: "isinstance_bytes q = ?b" using q by (simp add: to_pattern_def)
    have u: "units q = out"
    proof (cases p)
      case (Str x)
      then show ?thesis using q by (simp add: to_pattern_def)
    next
      case (Bytes x)
      have "\<forall>x \<in> set out. x < 256"
        using scan_bytes[of ?repl db n r False 0 "units p" out] s units_bytes_bound[of x] Bytes
        by simp
      then show ?thesis using q Bytes by (simp add: units_to_pattern_bytes)
    qed
    have "norm_pattern db q n r False =
        (case sub db (isinstance_bytes q) (norm db (isinstance_bytes q) n r False) 0 (units q) of
           Inl e \<Rightarrow> Inl e
         | Inr out \<Rightarrow> Inr (to_pattern (isinstance_bytes q) out))"
      using False by (cases n; cases r; simp add: norm_pattern_eq Let_def)
    also have "\<dots> = Inr (to_pattern ?b out)"
      unfolding b u by (simp add: idem)
    finally show ?thesis using q by (simp only:)
  qed
qed

text \<open>
  The str pattern \<open>\x41\*\<close>, which becomes \<open>A\*\<close>; the str pattern \<open>a\/b\<close> with
  \<open>normalize\<close> set too, which becomes \<open>a\\\\b\<close>; the bytes pattern \<open>a\/b\x\<close> without
  \<open>is_raw_chars\<close>; and the str pattern \<open>\134*\<close>, where the decoded backslash makes
  \<open>\*\<close>, which the scan keeps.
\<close>

theorem normalization_idempotent_witness:
  "norm_pattern ascii_db (Str [92, 120, 52, 49, 92, 42]) False True False
     = Inr (Str [65, 92, 42])
   \<and> norm_pattern ascii_db (Str [65, 92, 42]) False True False = Inr (Str [65, 92, 42])
   \<and> norm_pattern ascii_db (Str [97, 92, 47, 98]) True True False
     = Inr (Str [97, 92, 92, 92, 92, 98])
   \<and> norm_pattern ascii_db (Str [97, 92, 92, 92, 92, 98]) True True False
     = Inr (Str [97, 92, 92, 92, 92, 98])
   \<and> norm_pattern ascii_db (Bytes [97, 92, 47, 98, 92, 120]) True False False
     = Inr (Bytes [97, 92, 92, 92, 92, 98, 92, 120])
   \<and> norm_pattern ascii_db (Bytes [97, 92, 92, 92, 92, 98, 92, 120]) True False False
     = Inr (Bytes [97, 92, 92, 92, 92, 98, 92, 120])
   \<and> norm_pattern ascii_db (Str [92, 49, 51, 52, 42]) False True False = Inr (Str [92, 42])
   \<and> norm_pattern ascii_db (Str [92, 42]) False True False = Inr (Str [92, 42])"
  using normalization_idempotent[of ascii_db "Str [92, 120, 52, 49, 92, 42]" False True
      "Str [65, 92, 42]"]
    normalization_idempotent[of ascii_db "Str [97, 92, 47, 98]" True True
      "Str [97, 92, 92, 92, 92, 98]"]
    normalization_idempotent[of ascii_db "Bytes [97, 92, 47, 98, 92, 120]" True False
      "Bytes [97, 92, 92, 92, 92, 98, 92, 120]"]
    normalization_idempotent[of ascii_db "Str [92, 49, 51, 52, 42]" False True "Str [92, 42]"]
  by (simp add: scan_eval no_new_backslash.simps keeps.simps decodes_def)

text \<open>
  With \<open>is_raw_chars\<close> set a second call can change the pattern: \<open>\134n\<close> becomes a
  backslash and \<open>n\<close>, and that becomes a newline.
\<close>

theorem normalization_not_idempotent_counterexample:
  "norm_pattern ascii_db (Str [92, 49, 51, 52, 110]) False True False = Inr (Str [92, 110])
   \<and> norm_pattern ascii_db (Str [92, 110]) False True False = Inr (Str [10])
   \<and> norm_pattern ascii_db (Str [92, 110]) False True False \<noteq> Inr (Str [92, 110])"
  by (simp add: scan_eval)

end
